theory Spec2Isabelle
  imports
    Complex_Main
    "HOL-Library.Word"
    "HOL-Library.AList"
    "HOL-Library.Sublist"
    "HOL-Library.Log_Nat"
    "HOL-Library.Multiset"
begin

section \<open>Data model\<close>

text \<open>
  A Go \<open>map[string]uint64\<close> is an association list with pairwise distinct keys; the order
  of the list is the order in which one \<open>range\<close> loop visits the entries (Go leaves that
  order unspecified, so every statement below is made for all orders). Lookup is
  \<open>map_of\<close>, the assignment \<open>m[k] = v\<close> is \<open>AList.update k v m\<close>. A \<open>nil\<close> map is
  \<open>None\<close>, an allocated one (possibly empty) is \<open>Some m\<close>.
\<close>

type_synonym uint64 = "64 word"
type_synonym benchmap = "(string \<times> uint64) list"

abbreviation tab :: char where "tab \<equiv> CHR 0x09"
abbreviation nl :: char where "nl \<equiv> CHR 0x0A"

subsection \<open>The float64 values the program computes with\<close>

text \<open>
  \<open>float64\<close> values: not-a-number, the two infinities, and the finite values as the
  rationals they denote (the sign of a zero is not observable through \<open>>\<close> and \<open><\<close>).
  The comparisons are those of IEEE 754: every comparison with NaN is false.
\<close>

datatype float64 = NaN | PosInf | NegInf | Finite rat

fun f64_gt :: "float64 \<Rightarrow> float64 \<Rightarrow> bool" where
  "f64_gt NaN b = False"
| "f64_gt a NaN = False"
| "f64_gt PosInf PosInf = False"
| "f64_gt PosInf b = True"
| "f64_gt NegInf b = False"
| "f64_gt (Finite x) PosInf = False"
| "f64_gt (Finite x) NegInf = True"
| "f64_gt (Finite x) (Finite y) = (y < x)"

definition f64_lt :: "float64 \<Rightarrow> float64 \<Rightarrow> bool" where
  "f64_lt a b = f64_gt b a"

text \<open>Rounding to the nearest integer, ties to the even one.\<close>

definition round_even :: "rat \<Rightarrow> int" where
  "round_even x =
     (let f = \<lfloor>x\<rfloor>; d = x - of_int f
      in if d < 1 / 2 then f else if 1 / 2 < d then f + 1
         else if even f then f else f + 1)"

text \<open>The binary exponent of a positive rational: the \<open>e\<close> with \<open>2^e \<le> q < 2^(e+1)\<close>.\<close>

definition float_exp :: "rat \<Rightarrow> int" where
  "float_exp q =
     (let e0 = bitlen (fst (quotient_of q)) - bitlen (snd (quotient_of q))
      in if 2 powi e0 \<le> q then e0 else e0 - 1)"

text \<open>
  Rounding a non-negative rational to the nearest float64 (53 significant bits, ties to
  even). The program only rounds unsigned 64-bit integers and quotients of two such
  values, which lie between \<open>2^-64\<close> and \<open>2^64\<close>: neither overflow nor subnormal numbers
  occur.
\<close>

definition float64_round :: "rat \<Rightarrow> rat" where
  "float64_round q =
     (if q \<le> 0 then 0
      else let u = 2 powi (float_exp q - 52) in of_int (round_even (q / u)) * u)"

text \<open>The conversion \<open>float64(x)\<close> of a \<open>uint64\<close>.\<close>

definition float64_of :: "uint64 \<Rightarrow> rat" where
  "float64_of w = float64_round (of_nat (unat w))"

text \<open>
  \<open>float64(speed) / float64(oldSpeed)\<close>: both operands are finite and non-negative, so the
  quotient is NaN for \<open>0/0\<close>, \<open>+Inf\<close> for \<open>x/0\<close> with \<open>x > 0\<close>, and the rounded quotient
  otherwise.
\<close>

definition factor_of :: "uint64 \<Rightarrow> uint64 \<Rightarrow> float64" where
  "factor_of speed oldSpeed =
     (let x = float64_of speed; y = float64_of oldSpeed
      in if y = 0 then (if x = 0 then NaN else PosInf)
         else Finite (float64_round (x / y)))"

subsection \<open>Formatting verbs\<close>

definition digit :: "nat \<Rightarrow> char" where
  "digit n = ''0123456789'' ! n"

text \<open>\<open>%d\<close> of an unsigned integer: its decimal digits.\<close>

function fmt_d :: "nat \<Rightarrow> string" where
  "fmt_d n = (if n < 10 then [digit n] else fmt_d (n div 10) @ [digit (n mod 10)])"
  by pat_completeness auto
termination
  by (relation "measure id") auto

declare fmt_d.simps [simp del]

text \<open>\<open>%f\<close> of a float64: six digits after the point, correctly rounded.\<close>

definition fmt_f :: "float64 \<Rightarrow> string" where
  "fmt_f x =
     (case x of
        NaN \<Rightarrow> ''NaN''
      | PosInf \<Rightarrow> ''+Inf''
      | NegInf \<Rightarrow> ''-Inf''
      | Finite r \<Rightarrow>
          (let n = nat (round_even (\<bar>r\<bar> * 1000000));
               frac = fmt_d (n mod 1000000)
           in (if r < 0 then ''-'' else '''') @ fmt_d (n div 1000000) @ ''.''
              @ replicate (6 - length frac) CHR ''0'' @ frac))"

section \<open>compare\<close>

text \<open>
  What the function writes to the log, one constructor per call of the logger in
  \<open>compare\<close>.
\<close>

datatype logmsg =
    MissingHeader
  | MissingName string
  | BlankLine
  | AppearsNew string
  | SlowerThanExpected string float64
  | NewRecord string float64
  | NoBestOnRecord

text \<open>
  The variables of \<open>compare\<close>: the named results \<open>delta\<close>, \<open>missing\<close> and \<open>tooSlow\<close>, the
  contents of the map \<open>oldBenches\<close> (updated in place and returned as \<open>bestBenches\<close>), and
  the log written so far.
\<close>

record cmp =
  delta :: string
  oldBenches :: benchmap
  missing :: bool
  tooSlow :: bool
  logged :: "logmsg list"

definition header :: string where
  "header = ''Benchmark Name'' @ tab # ''New Speed'' @ tab # ''Best Speed'' @ tab # ''Factor (New/Old)'' @ [nl]"

definition missingRow :: "string \<Rightarrow> uint64 \<Rightarrow> string" where
  "missingRow key speed = key @ tab # ''MISSING'' @ tab # fmt_d (unat speed) @ tab # ''N/A'' @ [nl]"

definition newRow :: "string \<Rightarrow> uint64 \<Rightarrow> string" where
  "newRow benchName speed = benchName @ tab # fmt_d (unat speed) @ tab # ''MISSING'' @ tab # ''N/A'' @ [nl]"

definition speedRow :: "string \<Rightarrow> uint64 \<Rightarrow> uint64 \<Rightarrow> float64 \<Rightarrow> string" where
  "speedRow benchName speed oldSpeed factor =
     benchName @ tab # fmt_d (unat speed) @ tab # fmt_d (unat oldSpeed) @ tab # fmt_f factor @ [nl]"

definition noFileRow :: "string \<Rightarrow> uint64 \<Rightarrow> string" where
  "noFileRow key speed = key @ tab # fmt_d (unat speed) @ tab # ''NO FILE'' @ tab # ''N/A'' @ [nl]"

text \<open>The loop over \<open>oldBenches\<close> that reports the benchmarks missing from \<open>benches\<close>.\<close>

fun missingLoop :: "benchmap \<Rightarrow> benchmap \<Rightarrow> bool \<Rightarrow> cmp \<Rightarrow> cmp" where
  "missingLoop [] benches firstMissing st = st"
| "missingLoop ((key, speed) # rest) benches firstMissing st =
     (case map_of benches key of
        Some v \<Rightarrow> missingLoop rest benches firstMissing st
      | None \<Rightarrow>
          (let st1 = (if \<not> firstMissing
                      then st\<lparr>missing := True, logged := logged st @ [MissingHeader]\<rparr>
                      else st);
               st2 = st1\<lparr>delta := delta st1 @ missingRow key speed,
                         logged := logged st1 @ [MissingName key]\<rparr>
           in missingLoop rest benches True st2))"

text \<open>One iteration of the loop over \<open>benches\<close> that compares the speeds.\<close>

definition speedStep :: "float64 \<Rightarrow> float64 \<Rightarrow> string \<Rightarrow> uint64 \<Rightarrow> cmp \<Rightarrow> cmp" where
  "speedStep speedTol recordTol benchName speed st =
     (case map_of (oldBenches st) benchName of
        None \<Rightarrow>
          st\<lparr>delta := delta st @ newRow benchName speed,
             oldBenches := AList.update benchName speed (oldBenches st),
             logged := logged st @ [AppearsNew benchName]\<rparr>
      | Some oldSpeed \<Rightarrow>
          (let factor = factor_of speed oldSpeed;
               st1 = st\<lparr>delta := delta st @ speedRow benchName speed oldSpeed factor\<rparr>
           in if f64_gt factor speedTol
              then st1\<lparr>tooSlow := True,
                       logged := logged st1 @ [SlowerThanExpected benchName factor]\<rparr>
              else if f64_lt factor recordTol
              then st1\<lparr>oldBenches := AList.update benchName speed (oldBenches st1),
                       logged := logged st1 @ [NewRecord benchName factor]\<rparr>
              else st1))"

fun speedLoop :: "benchmap \<Rightarrow> float64 \<Rightarrow> float64 \<Rightarrow> cmp \<Rightarrow> cmp" where
  "speedLoop [] speedTol recordTol st = st"
| "speedLoop ((benchName, speed) # rest) speedTol recordTol st =
     speedLoop rest speedTol recordTol (speedStep speedTol recordTol benchName speed st)"

text \<open>The loop of the branch without a previous record.\<close>

fun noFileLoop :: "benchmap \<Rightarrow> cmp \<Rightarrow> cmp" where
  "noFileLoop [] st = st"
| "noFileLoop ((key, speed) # rest) st =
     noFileLoop rest
       (st\<lparr>delta := delta st @ noFileRow key speed,
           oldBenches := AList.update key speed (oldBenches st)\<rparr>)"

text \<open>
  \<open>compare\<close> returns \<open>delta\<close>, \<open>oldBenches\<close> (as \<open>bestBenches\<close>), \<open>missing\<close> and \<open>tooSlow\<close>: the
  fields of the final state. The argument \<open>pkgPath\<close> is not used by the function.
\<close>

definition compare :: "benchmap option \<Rightarrow> benchmap \<Rightarrow> string \<Rightarrow> float64 \<Rightarrow> float64 \<Rightarrow> cmp" where
  "compare oldBenchesArg benches pkgPath speedTol recordTol =
     (case oldBenchesArg of
        Some old \<Rightarrow>
          (let st0 = \<lparr>delta = header, oldBenches = old, missing = False, tooSlow = False,
                      logged = []\<rparr>;
               st1 = missingLoop old benches False st0;
               st2 = st1\<lparr>logged := logged st1 @ [BlankLine]\<rparr>
           in speedLoop benches speedTol recordTol st2)
      | None \<Rightarrow>
          noFileLoop benches
            \<lparr>delta = header, oldBenches = [], missing = False, tooSlow = False,
             logged = [NoBestOnRecord]\<rparr>)"

subsection \<open>The effect of one iteration, entry by entry\<close>

text \<open>
  What one iteration of the speed loop does, as a function of the entry of \<open>oldBenches\<close>
  for the benchmark it visits.
\<close>

definition stepLog :: "float64 \<Rightarrow> float64 \<Rightarrow> uint64 option \<Rightarrow> string \<Rightarrow> uint64 \<Rightarrow> logmsg list" where
  "stepLog sT rT old k v =
     (case old of
        None \<Rightarrow> [AppearsNew k]
      | Some oldSpeed \<Rightarrow>
          if f64_gt (factor_of v oldSpeed) sT then [SlowerThanExpected k (factor_of v oldSpeed)]
          else if f64_lt (factor_of v oldSpeed) rT then [NewRecord k (factor_of v oldSpeed)]
          else [])"

definition stepRow :: "uint64 option \<Rightarrow> string \<Rightarrow> uint64 \<Rightarrow> string" where
  "stepRow old k v =
     (case old of None \<Rightarrow> newRow k v | Some oldSpeed \<Rightarrow> speedRow k v oldSpeed (factor_of v oldSpeed))"

definition stepSlow :: "float64 \<Rightarrow> uint64 option \<Rightarrow> uint64 \<Rightarrow> bool" where
  "stepSlow sT old v = (case old of None \<Rightarrow> False | Some oldSpeed \<Rightarrow> f64_gt (factor_of v oldSpeed) sT)"

definition stepBest :: "float64 \<Rightarrow> float64 \<Rightarrow> uint64 option \<Rightarrow> uint64 \<Rightarrow> uint64" where
  "stepBest sT rT old v =
     (case old of
        None \<Rightarrow> v
      | Some oldSpeed \<Rightarrow>
          if \<not> f64_gt (factor_of v oldSpeed) sT \<and> f64_lt (factor_of v oldSpeed) rT then v
          else oldSpeed)"




text \<open>The entries of \<open>oldBenches\<close> whose benchmark is not in \<open>benches\<close>.\<close>

definition absent :: "benchmap \<Rightarrow> benchmap \<Rightarrow> benchmap" where
  "absent old benches = filter (\<lambda>(k, v). map_of benches k = None) old"

section \<open>tabAlign\<close>

text \<open>
  \<open>strings.Split\<close> with a separator of one character: the pieces between the
  occurrences of the separator, one more than there are occurrences.
\<close>

fun split :: "char \<Rightarrow> string \<Rightarrow> string list" where
  "split sep [] = [[]]"
| "split sep (c # cs) =
     (if c = sep then [] # split sep cs
      else (case split sep cs of [] \<Rightarrow> [[c]] | w # ws \<Rightarrow> (c # w) # ws))"

text \<open>\<open>strings.Join\<close>.\<close>

fun join :: "string \<Rightarrow> string list \<Rightarrow> string" where
  "join sep [] = []"
| "join sep [x] = x"
| "join sep (x # y # ys) = x @ sep @ join sep (y # ys)"

text \<open>\<open>strings.Repeat\<close> panics on a negative count: \<open>None\<close>.\<close>

definition repeat :: "string \<Rightarrow> int \<Rightarrow> string option" where
  "repeat s n = (if n < 0 then None else Some (concat (replicate (nat n) s)))"

definition intMax :: "int \<Rightarrow> int \<Rightarrow> int" where
  "intMax a b = (if a > b then a else b)"

text \<open>
  The inner loop of the first pass, \<open>max[i] = intMax(max[i], len(str))\<close> for every
  column \<open>i\<close> of a row, and the first pass over the rows.
\<close>

definition updateMax :: "int list \<Rightarrow> string list \<Rightarrow> int list" where
  "updateMax mx cols =
     fold (\<lambda>i m. m[i := intMax (m ! i) (int (length (cols ! i)))]) [0..<length cols] mx"

definition maxWidths :: "string list \<Rightarrow> int list" where
  "maxWidths rows =
     fold (\<lambda>row mx. let cols = split tab row in if length cols \<noteq> 4 then mx else updateMax mx cols)
       rows [0, 0, 0, 0]"

text \<open>
  The inner loop of the second pass: starting from the first column, append for every
  \<open>i\<close> below \<open>len(cols) - 1\<close> the padding and the next column.
\<close>

definition alignRow :: "int list \<Rightarrow> string list \<Rightarrow> string option" where
  "alignRow mx cols =
     fold (\<lambda>i acc.
            case acc of
              None \<Rightarrow> None
            | Some str \<Rightarrow>
                (case repeat '' '' (mx ! i - int (length (cols ! i)) + 4) of
                   None \<Rightarrow> None
                 | Some pad \<Rightarrow> Some (str @ pad @ cols ! (i + 1))))
       [0..<length cols - 1] (Some (cols ! 0))"

text \<open>
  \<open>tabAlign\<close> (its argument \<open>delta\<close> is called \<open>table\<close> here, \<open>delta\<close> being a
  field of the state of \<open>compare\<close>): \<open>aligned\<close> has one string for every row, the empty string where the row
  does not have four columns; the result is \<open>None\<close> if \<open>strings.Repeat\<close> panics.
\<close>

definition tabAlign :: "string \<Rightarrow> string option" where
  "tabAlign table =
     (let rows = split nl table;
          mx = maxWidths rows;
          aligned = map (\<lambda>row. let cols = split tab row
                               in if length cols \<noteq> 4 then Some [] else alignRow mx cols) rows
      in map_option (join [nl]) (those aligned))"

subsection \<open>The table as the specification describes it\<close>

definition wellFormed :: "string \<Rightarrow> bool" where
  "wellFormed row = (length (split tab row) = 4)"

text \<open>The greatest width of column \<open>i\<close> over the rows with four columns.\<close>

definition colWidth :: "string list \<Rightarrow> nat \<Rightarrow> nat" where
  "colWidth rows i =
     fold max (map (\<lambda>row. length (split tab row ! i)) (filter wellFormed rows)) 0"

definition padField :: "nat \<Rightarrow> string \<Rightarrow> string" where
  "padField w field = field @ replicate (w - length field + 4) CHR '' ''"

definition renderRow :: "string list \<Rightarrow> string \<Rightarrow> string" where
  "renderRow rows row =
     (let cols = split tab row
      in padField (colWidth rows 0) (cols ! 0) @ padField (colWidth rows 1) (cols ! 1)
         @ padField (colWidth rows 2) (cols ! 2) @ cols ! 3)"

text \<open>The same maximum, starting from the width \<open>a\<close>.\<close>

definition widthFrom :: "string list \<Rightarrow> nat \<Rightarrow> nat \<Rightarrow> nat" where
  "widthFrom rows i a =
     fold max (map (\<lambda>row. length (split tab row ! i)) (filter wellFormed rows)) a"

section \<open>findGosrc\<close>

text \<open>
  \<open>convertPath\<close> of the build without the \<open>windows\<close> tag returns its argument.
\<close>

definition convertPath :: "string \<Rightarrow> string" where
  "convertPath pathFromTest = pathFromTest"

text \<open>
  \<open>strings.LastIndex(s, substr)\<close>: the index of the last instance of \<open>substr\<close> in \<open>s\<close>,
  or \<open>-1\<close> if there is none. The search tries the start positions from the last
  possible one down to \<open>0\<close>.
\<close>

fun lastIndexFrom :: "string \<Rightarrow> string \<Rightarrow> nat \<Rightarrow> int" where
  "lastIndexFrom s substr 0 = (if prefix substr s then 0 else - 1)"
| "lastIndexFrom s substr (Suc i) =
     (if prefix substr (drop (Suc i) s) then int (Suc i) else lastIndexFrom s substr i)"

definition lastIndex :: "string \<Rightarrow> string \<Rightarrow> int" where
  "lastIndex s substr =
     (if length substr \<le> length s then lastIndexFrom s substr (length s - length substr)
      else - 1)"

text \<open>
  \<open>findGosrc\<close>; the slice \<open>pwd[:index-1]\<close> is taken only when \<open>index\<close> is at least \<open>2\<close>
  and, being an index into \<open>pwd\<close>, at most its length.
\<close>

definition findGosrc :: "string \<Rightarrow> string \<Rightarrow> string" where
  "findGosrc pwd pkgName =
     (let path = convertPath pkgName;
          index = lastIndex pwd path
      in if index \<le> 1 then [] else take (nat (index - 1)) pwd)"

text \<open>\<open>substr\<close> occurs in \<open>s\<close> at position \<open>i\<close>.\<close>

definition occursAt :: "string \<Rightarrow> string \<Rightarrow> nat \<Rightarrow> bool" where
  "occursAt substr s i = (i \<le> length s \<and> prefix substr (drop i s))"

section \<open>runAndStoreBenches and rebench\<close>

text \<open>
  The UTF-8 encodings of the characters that \<open>unicode.IsSpace\<close> accepts: tab, line feed,
  vertical tab, form feed, carriage return, space, U+0085, U+00A0, U+1680, U+2000 to
  U+200A, U+2028, U+2029, U+202F, U+205F and U+3000.
\<close>

definition spaceEncodings :: "string list" where
  "spaceEncodings =
     [[CHR 0x09], [CHR 0x0A], [CHR 0x0B],
      [CHR 0x0C], [CHR 0x0D], [CHR 0x20],
      [CHR 0xC2, CHR 0x85], [CHR 0xC2, CHR 0xA0], [CHR 0xE1, CHR 0x9A, CHR 0x80],
      [CHR 0xE2, CHR 0x80, CHR 0x80], [CHR 0xE2, CHR 0x80, CHR 0x81], [CHR 0xE2, CHR 0x80, CHR 0x82],
      [CHR 0xE2, CHR 0x80, CHR 0x83], [CHR 0xE2, CHR 0x80, CHR 0x84], [CHR 0xE2, CHR 0x80, CHR 0x85],
      [CHR 0xE2, CHR 0x80, CHR 0x86], [CHR 0xE2, CHR 0x80, CHR 0x87], [CHR 0xE2, CHR 0x80, CHR 0x88],
      [CHR 0xE2, CHR 0x80, CHR 0x89], [CHR 0xE2, CHR 0x80, CHR 0x8A], [CHR 0xE2, CHR 0x80, CHR 0xA8],
      [CHR 0xE2, CHR 0x80, CHR 0xA9], [CHR 0xE2, CHR 0x80, CHR 0xAF], [CHR 0xE2, CHR 0x81, CHR 0x9F],
      [CHR 0xE3, CHR 0x80, CHR 0x80]]"

text \<open>Remove, as long as there is one, a leading piece that is in the given list.\<close>

function trimPrefixes :: "string list \<Rightarrow> string \<Rightarrow> string" where
  "trimPrefixes pieces s =
     (case find (\<lambda>p. p \<noteq> [] \<and> prefix p s) pieces of
        None \<Rightarrow> s
      | Some p \<Rightarrow> trimPrefixes pieces (drop (length p) s))"
  by pat_completeness auto
termination
proof (relation "measure (\<lambda>(pieces, s). length s)")
  show "wf (measure (\<lambda>(pieces, s). length s))" by simp
next
  fix pieces :: "string list" and s p :: string
  assume "find (\<lambda>p. p \<noteq> [] \<and> prefix p s) pieces = Some p"
  then have "p \<noteq> []" and "prefix p s" by (auto simp: find_Some_iff)
  then have "length (drop (length p) s) < length s"
    by (cases p; cases s) (auto dest: prefix_length_le)
  then show "((pieces, drop (length p) s), (pieces, s)) \<in> measure (\<lambda>(pieces, s). length s)"
    by simp
qed

declare trimPrefixes.simps [simp del]

text \<open>\<open>strings.TrimSpace\<close>: without the leading and the trailing white space.\<close>

definition TrimSpace :: "string \<Rightarrow> string" where
  "TrimSpace s =
     rev (trimPrefixes (map rev spaceEncodings) (rev (trimPrefixes spaceEncodings s)))"

text \<open>
  \<open>strings.TrimRight(s, cutset)\<close> for a cutset of ASCII characters: without the trailing
  characters that are in the cutset.
\<close>

definition TrimRight :: "string \<Rightarrow> string \<Rightarrow> string" where
  "TrimRight s cutset = rev (dropWhile (\<lambda>c. c \<in> set cutset) (rev s))"

text \<open>
  \<open>strconv.ParseUint(s, 10, 64)\<close>: \<open>None\<close> for the empty string, for a string with a
  character that is not a decimal digit (a sign is not accepted) and for a value that
  does not fit 64 bits.
\<close>

definition isDigit :: "char \<Rightarrow> bool" where
  "isDigit c = (c \<in> set ''0123456789'')"

definition digitVal :: "char \<Rightarrow> nat" where
  "digitVal c = of_char c - 48"

definition ParseUint :: "string \<Rightarrow> uint64 option" where
  "ParseUint s =
     (if s = [] \<or> \<not> list_all isDigit s then None
      else (let n = foldl (\<lambda>a c. 10 * a + digitVal c) 0 s
            in if n < 2 ^ 64 then Some (word_of_nat n) else None))"

text \<open>
  A \<open>map[string]map[string]uint64\<close>, and the two errors that \<open>runAndStoreBenches\<close>
  returns.
\<close>

type_synonym runrecord = "(string \<times> benchmap) list"

datatype error = GoTestProblem | ConvertProblem

text \<open>The loop over the lines of the output, with the variables \<open>record\<close> and \<open>curr\<close>
  (here \<open>cur\<close>).\<close>

fun parseLines :: "string list \<Rightarrow> runrecord \<Rightarrow> benchmap \<Rightarrow> error + runrecord" where
  "parseLines [] record cur = Inr record"
| "parseLines (line # rest) record cur =
     (let result = map TrimSpace (split tab line)
      in if length result < 3 \<or> result ! 0 = ''?'' then parseLines rest record cur
         else if prefix ''Benchmark'' (result ! 0)
         then (case ParseUint (TrimRight (result ! 2) '' ns/op'') of
                 None \<Rightarrow> Inl ConvertProblem
               | Some t \<Rightarrow> parseLines rest record (AList.update (result ! 0) t cur))
         else if result ! 0 = ''ok''
         then parseLines rest (AList.update (result ! 1) cur record) []
         else parseLines rest record cur)"

text \<open>
  \<open>runAndStoreBenches\<close>, as a function of what running \<open>go test\<close> gave: \<open>None\<close> when the
  command failed, its output otherwise.
\<close>

definition runAndStoreBenches :: "string option \<Rightarrow> error + runrecord" where
  "runAndStoreBenches goTest =
     (case goTest of
        None \<Rightarrow> Inl GoTestProblem
      | Some out \<Rightarrow> parseLines (split nl out) [] [])"

text \<open>
  \<open>rebench\<close>, as a function of the files \<open>fs\<close>: it returns the exit code and the files
  after the run. The argument \<open>rest\<close> is the function from its third statement on (finding
  the source directory and the loop over the packages), which is where files are read
  and written.
\<close>

definition rebench ::
  "(int \<Rightarrow> int \<Rightarrow> runrecord \<Rightarrow> 'fs \<Rightarrow> int \<times> 'fs) \<Rightarrow> string option \<Rightarrow> int \<Rightarrow> int \<Rightarrow> 'fs \<Rightarrow> int \<times> 'fs" where
  "rebench rest goTest speedTolPercent recordTolPercent fs =
     (case runAndStoreBenches goTest of
        Inl err \<Rightarrow> (- 1, fs)
      | Inr record \<Rightarrow>
          if length record = 0 then (0, fs)
          else rest speedTolPercent recordTolPercent record fs)"

text \<open>
  The lines the loop takes for a benchmark measurement and for the end of a package, and
  the text it hands to \<open>ParseUint\<close>.
\<close>

definition columns :: "string \<Rightarrow> string list" where
  "columns line = map TrimSpace (split tab line)"

definition measurementLine :: "string \<Rightarrow> bool" where
  "measurementLine line =
     (3 \<le> length (columns line) \<and> columns line ! 0 \<noteq> ''?'' \<and> prefix ''Benchmark'' (columns line ! 0))"

definition flushLine :: "string \<Rightarrow> bool" where
  "flushLine line =
     (3 \<le> length (columns line) \<and> columns line ! 0 = ''ok'')"

definition timingField :: "string \<Rightarrow> string" where
  "timingField line = TrimRight (columns line ! 2) '' ns/op''"

section \<open>compare on map references\<close>

text \<open>
  A Go map value is a reference. The store gives the contents of the map at every address
  and the first address not yet allocated; a reference is \<open>None\<close> for \<open>nil\<close> (which reads
  as the empty map) or \<open>Some\<close> address.
\<close>

record store =
  maps :: "nat \<Rightarrow> benchmap"
  free :: nat

definition readMap :: "store \<Rightarrow> nat option \<Rightarrow> benchmap" where
  "readMap h ref = (case ref of None \<Rightarrow> [] | Some a \<Rightarrow> maps h a)"

text \<open>
  \<open>compare\<close> called with the references \<open>oldBenches\<close> and \<open>benches\<close>: it returns the final
  state, the reference it returns as \<open>bestBenches\<close> and the store after the call. With a
  previous record the assignments \<open>oldBenches[benchName] = speed\<close> write to the map the
  caller passed, and that same reference is returned; without one, \<open>make\<close> allocates a
  map. (When both arguments are the same map, the loop over \<open>benches\<close> only ever assigns
  to a key the value it already has, so reading \<open>benches\<close> once, before the loop, gives
  the same run.)
\<close>

definition compareRef ::
  "store \<Rightarrow> nat option \<Rightarrow> nat option \<Rightarrow> string \<Rightarrow> float64 \<Rightarrow> float64 \<Rightarrow> cmp \<times> nat \<times> store" where
  "compareRef h oldRef benchesRef pkgPath speedTol recordTol =
     (case oldRef of
        Some a \<Rightarrow>
          (let r = compare (Some (maps h a)) (readMap h benchesRef) pkgPath speedTol recordTol
           in (r, a, h\<lparr>maps := (maps h)(a := oldBenches r)\<rparr>))
      | None \<Rightarrow>
          (let r = compare None (readMap h benchesRef) pkgPath speedTol recordTol;
               a = free h
           in (r, a, h\<lparr>maps := (maps h)(a := oldBenches r), free := Suc a\<rparr>)))"

text \<open>
  What a reference holds when the call starts (\<open>None\<close> for \<open>nil\<close>), and the rows that
  \<open>compare\<close> appends to the header of \<open>delta\<close>, in the order of the loops: without a
  previous record one \<open>NO FILE\<close> row for every entry of \<open>benches\<close>; with one, a \<open>MISSING\<close>
  row for every entry of \<open>oldBenches\<close> that \<open>benches\<close> lacks, then for every entry of
  \<open>benches\<close> its row of the speed loop.
\<close>

definition readRef :: "store \<Rightarrow> nat option \<Rightarrow> benchmap option" where
  "readRef h ref = map_option (maps h) ref"

definition deltaRows :: "benchmap option \<Rightarrow> benchmap \<Rightarrow> string list" where
  "deltaRows old benches =
     (case old of
        None \<Rightarrow> map (\<lambda>(k, v). noFileRow k v) benches
      | Some B \<Rightarrow>
          map (\<lambda>(k, v). missingRow k v) (absent B benches)
          @ map (\<lambda>(k, v). stepRow (map_of B k) k v) benches)"

section \<open>Rounding to float64\<close>

lemma two_powi_pos [simp]: "(0::rat) < 2 powi e"
  by (simp add: zero_less_power_int)

lemma bitlen_rat_bounds:
  assumes "0 < n"
  shows "(2::rat) powi (bitlen n - 1) \<le> of_int n" and "of_int n < (2::rat) powi bitlen n"
proof -
  from assms have b1: "1 \<le> bitlen n" by (auto simp: bitlen_alt_def)
  from bitlen_bounds [OF assms] have lo: "2 ^ nat (bitlen n - 1) \<le> n" and hi: "n < 2 ^ nat (bitlen n)"
    by simp_all
  from lo have "rat_of_int (2 ^ nat (bitlen n - 1)) \<le> of_int n" by (simp only: of_int_le_iff)
  with b1 show "(2::rat) powi (bitlen n - 1) \<le> of_int n"
    by (simp add: power_int_nonneg_exp)
  from hi have "rat_of_int n < of_int (2 ^ nat (bitlen n))" by (simp only: of_int_less_iff)
  with b1 show "of_int n < (2::rat) powi bitlen n"
    by (simp add: power_int_nonneg_exp)
qed

lemma float_exp_bounds:
  assumes "0 < q"
  shows "2 powi float_exp q \<le> q" and "q < 2 powi (float_exp q + 1)"
proof -
  obtain n d where nd: "quotient_of q = (n, d)" by (cases "quotient_of q")
  then have d: "0 < d" by (rule quotient_of_denom_pos)
  from nd have q: "q = of_int n / of_int d" by (rule quotient_of_div)
  with assms d have n: "0 < n" by (simp add: zero_less_divide_iff)
  define e0 where "e0 = bitlen n - bitlen d"
  note bn = bitlen_rat_bounds [OF n] and bd = bitlen_rat_bounds [OF d]
  have dpos: "(0::rat) < of_int d" using d by simp
  have up: "q < 2 powi (e0 + 1)"
  proof -
    have "q * of_int d = rat_of_int n" using q dpos by simp
    also have "\<dots> < 2 powi bitlen n" by (rule bn(2))
    also have "\<dots> = 2 powi (e0 + 1) * 2 powi (bitlen d - 1)"
      by (simp add: e0_def flip: power_int_add)
    also have "\<dots> \<le> 2 powi (e0 + 1) * of_int d"
      using bd(1) by (intro mult_left_mono) simp_all
    finally show ?thesis using dpos by simp
  qed
  have lo: "2 powi (e0 - 1) < q"
  proof -
    have "(2::rat) powi (e0 - 1) * of_int d < 2 powi (e0 - 1) * 2 powi bitlen d"
      using bd(2) by (intro mult_strict_left_mono) simp_all
    also have "\<dots> = 2 powi (bitlen n - 1)"
      by (simp add: e0_def flip: power_int_add)
    also have "\<dots> \<le> of_int n" by (rule bn(1))
    also have "\<dots> = q * of_int d" using q dpos by simp
    finally show ?thesis using dpos by simp
  qed
  have fe: "float_exp q = (if 2 powi e0 \<le> q then e0 else e0 - 1)"
    by (simp add: float_exp_def nd e0_def)
  show "2 powi float_exp q \<le> q" using lo by (simp add: fe)
  show "q < 2 powi (float_exp q + 1)" using up by (auto simp add: fe not_le)
qed

lemma float_exp_unique:
  assumes "2 powi e \<le> q" and "q < 2 powi (e + 1)"
  shows "float_exp q = e"
proof -
  from assms(1) have q: "0 < q" by (rule less_le_trans [OF two_powi_pos])
  note b = float_exp_bounds [OF q]
  have "(2::rat) powi e < 2 powi (float_exp q + 1)" using assms(1) b(2) by simp
  then have 1: "e < float_exp q + 1"
    by (metis less_le_not_le not_le power_int_increasing one_le_numeral)
  have "(2::rat) powi float_exp q < 2 powi (e + 1)" using assms(2) b(1) by simp
  then have 2: "float_exp q < e + 1"
    by (metis less_le_not_le not_le power_int_increasing one_le_numeral)
  from 1 2 show ?thesis by simp
qed



lemma round_even_bounds:
  shows "x - 1 / 2 \<le> of_int (round_even x)" and "of_int (round_even x) \<le> x + 1 / 2"
proof -
  define f where "f = \<lfloor>x\<rfloor>"
  have f1: "of_int f \<le> x" and f2: "x < of_int f + 1" unfolding f_def by linarith+
  have r: "round_even x = (if x - of_int f < 1 / 2 then f else if 1 / 2 < x - of_int f then f + 1
         else if even f then f else f + 1)"
    by (simp add: round_even_def Let_def f_def)
  show "x - 1 / 2 \<le> of_int (round_even x)"
    unfolding r using f1 f2 by (simp split: if_splits)
  show "of_int (round_even x) \<le> x + 1 / 2"
    unfolding r using f1 f2 by (simp split: if_splits)
qed

lemma round_even_of_int [simp]: "round_even (of_int m) = m"
  by (simp add: round_even_def)

lemma round_even_numeral [simp]: "round_even (numeral n) = numeral n"
  using round_even_of_int [of "numeral n"] by simp


lemma round_even_mono:
  assumes "x \<le> y"
  shows "round_even x \<le> round_even y"
proof (cases "x = y")
  case True
  then show ?thesis by simp
next
  case False
  with assms have "x < y" by simp
  have "rat_of_int (round_even x) \<le> x + 1 / 2" by (rule round_even_bounds(2))
  also have "\<dots> < y + 1 / 2" using \<open>x < y\<close> by simp
  also have "y + 1 / 2 \<le> of_int (round_even y) + 1"
    using round_even_bounds(1) [of y] by simp
  finally have "rat_of_int (round_even x) < of_int (round_even y + 1)" by simp
  then have "round_even x < round_even y + 1" by (simp only: of_int_less_iff)
  then show ?thesis by simp
qed

lemma float64_round_pos_eq:
  "0 < q \<Longrightarrow>
   float64_round q = of_int (round_even (q / 2 powi (float_exp q - 52))) * 2 powi (float_exp q - 52)"
  by (simp add: float64_round_def Let_def)

lemma float64_round_eqI:
  assumes "2 powi e \<le> q" and "q < 2 powi (e + 1)"
    and "round_even (q / 2 powi (e - 52)) = m"
  shows "float64_round q = of_int m * 2 powi (e - 52)"
proof -
  from assms(1) have q: "0 < q" by (rule less_le_trans [OF two_powi_pos])
  from assms(1,2) have "float_exp q = e" by (rule float_exp_unique)
  with q assms(3) show ?thesis by (simp add: float64_round_pos_eq)
qed

lemma scaled_bounds:
  assumes "0 < q"
  shows "2 ^ 52 \<le> q / 2 powi (float_exp q - 52)" and "q / 2 powi (float_exp q - 52) < 2 ^ 53"
proof -
  let ?e = "float_exp q"
  have "(2::rat) ^ 52 * 2 powi (?e - 52) = 2 powi ?e"
    by (simp add: power_int_diff)
  also have "\<dots> \<le> q" by (rule float_exp_bounds [OF assms])
  finally show "2 ^ 52 \<le> q / 2 powi (?e - 52)"
    by (simp add: pos_le_divide_eq)
  have "q < 2 powi (?e + 1)" by (rule float_exp_bounds [OF assms])
  also have "\<dots> = 2 ^ 53 * 2 powi (?e - 52)"
    by (simp add: power_int_diff power_int_add)
  finally show "q / 2 powi (?e - 52) < 2 ^ 53"
    by (simp add: pos_divide_less_eq)
qed

lemma float64_round_lower:
  assumes "0 < q"
  shows "2 powi float_exp q \<le> float64_round q"
proof -
  let ?u = "(2::rat) powi (float_exp q - 52)"
  have "round_even (of_int (2 ^ 52)) \<le> round_even (q / ?u)"
    using scaled_bounds(1) [OF assms] by (intro round_even_mono) simp
  then have "(2::int) ^ 52 \<le> round_even (q / ?u)" by (simp only: round_even_of_int)
  then have "rat_of_int (2 ^ 52) \<le> of_int (round_even (q / ?u))" by (simp only: of_int_le_iff)
  then have "rat_of_int (2 ^ 52) * ?u \<le> of_int (round_even (q / ?u)) * ?u"
    by (intro mult_right_mono) simp_all
  moreover have "rat_of_int (2 ^ 52) * ?u = 2 powi float_exp q"
    by (simp add: power_int_diff)
  ultimately have "2 powi float_exp q \<le> of_int (round_even (q / ?u)) * ?u"
    by (simp only:)
  then show ?thesis by (simp only: float64_round_pos_eq [OF assms])
qed


lemma float64_round_pos: "0 < q \<Longrightarrow> 0 < float64_round q"
  by (rule less_le_trans [OF two_powi_pos float64_round_lower])



lemma float64_round_one [simp]: "float64_round 1 = 1"
  using float64_round_eqI [of 0 1 "2 ^ 52"] by (simp add: power_int_minus)

lemma float64_of_zero_iff: "float64_of w = 0 \<longleftrightarrow> w = 0"
proof
  assume z: "float64_of w = 0"
  show "w = 0"
  proof (rule ccontr)
    assume "w \<noteq> 0"
    then have "0 < unat w" by (simp add: unat_gt_0)
    then have "(0::rat) < of_nat (unat w)" by (simp only: of_nat_0_less_iff)
    then have "0 < float64_round (of_nat (unat w))" by (rule float64_round_pos)
    with z show False by (simp add: float64_of_def)
  qed
next
  assume "w = 0"
  then show "float64_of w = 0" by (simp add: float64_of_def float64_round_def)
qed



lemma factor_of_same: "factor_of v v = (if v = 0 then NaN else Finite 1)"
  by (simp add: factor_of_def Let_def float64_of_zero_iff)



lemma two_powi_less_imp: "(2::rat) powi a < 2 powi b \<Longrightarrow> a < b"
  by (metis less_le_not_le not_le power_int_increasing one_le_numeral)

lemma float64_round_int_exact:
  assumes "0 < n" and "n < 2 ^ 53"
  shows "float64_round (of_int n) = of_int n"
proof -
  let ?q = "rat_of_int n"
  define e where "e = float_exp ?q"
  from assms(1) have q: "0 < ?q" by simp
  have "(2::rat) powi e \<le> ?q" unfolding e_def by (rule float_exp_bounds [OF q])
  also have "?q < of_int (2 ^ 53)" using assms(2) by (simp only: of_int_less_iff)
  also have "rat_of_int (2 ^ 53) = 2 powi 53" by simp
  finally have "e < 53" by (rule two_powi_less_imp)
  define k where "k = nat (52 - e)"
  from \<open>e < 53\<close> have "e - 52 = - int k" by (simp add: k_def)
  then have u: "(2::rat) powi (e - 52) = 1 / 2 ^ k"
    by (simp only: power_int_minus power_int_of_nat inverse_eq_divide)
  have "?q / 2 powi (e - 52) = of_int (n * 2 ^ k)"
    by (simp add: u)
  then have "round_even (?q / 2 powi (e - 52)) = n * 2 ^ k"
    by (simp only: round_even_of_int)
  then have "float64_round ?q = of_int (n * 2 ^ k) * (1 / 2 ^ k)"
    by (simp only: float64_round_pos_eq [OF q] u flip: e_def)
  then show ?thesis by simp
qed

lemma float64_of_exact:
  assumes "unat w < 2 ^ 53"
  shows "float64_of w = of_nat (unat w)"
proof (cases "w = 0")
  case True
  then show ?thesis by (simp add: float64_of_def float64_round_def)
next
  case False
  define n where "n = int (unat w)"
  from False have "0 < unat w" by (simp add: unat_gt_0)
  then have pos: "0 < n" unfolding n_def by (simp only: of_nat_0_less_iff)
  from assms have "n < int (2 ^ 53)" unfolding n_def by (simp only: of_nat_less_iff)
  then have lt: "n < 2 ^ 53" by simp
  have "rat_of_nat (unat w) = of_int n" unfolding n_def by (simp only: of_int_of_nat_eq)
  with float64_round_int_exact [OF pos lt] show ?thesis by (simp only: float64_of_def)
qed

lemma float64_round_half [simp]: "float64_round (1 / 2) = 1 / 2"
  using float64_round_eqI [of "-1" "1 / 2" "2 ^ 52"] by (simp add: power_int_minus)

lemma factor_of_500_1000: "factor_of 500 1000 = Finite (1 / 2)"
  by (simp add: factor_of_def float64_of_exact)

lemma factor_of_500000000_1: "factor_of 500000000 1 = Finite 500000000"
  by (simp add: factor_of_def float64_of_exact float64_round_int_exact [of 500000000, simplified])








section \<open>Properties of the loops of compare\<close>

lemma speedStep_logged:
  "logged (speedStep sT rT k v st) = logged st @ stepLog sT rT (map_of (oldBenches st) k) k v"
  by (simp add: speedStep_def stepLog_def Let_def split: option.splits)

lemma speedStep_delta:
  "delta (speedStep sT rT k v st) = delta st @ stepRow (map_of (oldBenches st) k) k v"
  by (simp add: speedStep_def stepRow_def Let_def split: option.splits)

lemma speedStep_tooSlow:
  "tooSlow (speedStep sT rT k v st) = (tooSlow st \<or> stepSlow sT (map_of (oldBenches st) k) v)"
  by (simp add: speedStep_def stepSlow_def Let_def split: option.splits)

lemma speedStep_missing:
  "missing (speedStep sT rT k v st) = missing st"
  by (simp add: speedStep_def Let_def split: option.splits)

lemma speedStep_best:
  "map_of (oldBenches (speedStep sT rT k v st)) =
     (map_of (oldBenches st))(k \<mapsto> stepBest sT rT (map_of (oldBenches st) k) v)"
  by (auto simp add: speedStep_def stepBest_def Let_def update_conv' fun_eq_iff split: option.splits)

lemma speedStep_keys:
  "distinct (map fst (oldBenches st)) \<Longrightarrow> distinct (map fst (oldBenches (speedStep sT rT k v st)))"
  by (simp add: speedStep_def Let_def distinct_update split: option.splits)

lemma speedStep_other:
  "k' \<noteq> k \<Longrightarrow> map_of (oldBenches (speedStep sT rT k v st)) k' = map_of (oldBenches st) k'"
  by (simp add: speedStep_best)

lemma speedLoop_logged:
  "distinct (map fst C) \<Longrightarrow>
   logged (speedLoop C sT rT st) =
     logged st @ concat (map (\<lambda>(k, v). stepLog sT rT (map_of (oldBenches st) k) k v) C)"
proof (induction C arbitrary: st)
  case Nil
  then show ?case by simp
next
  case (Cons a C)
  obtain k v where a: "a = (k, v)" by (cases a)
  from Cons.prems a have k: "\<forall>(k', v') \<in> set C. k' \<noteq> k" and d: "distinct (map fst C)"
    by (auto simp: image_iff)
  have "map (\<lambda>(k', v'). stepLog sT rT (map_of (oldBenches (speedStep sT rT k v st)) k') k' v') C
      = map (\<lambda>(k', v'). stepLog sT rT (map_of (oldBenches st) k') k' v') C"
    using k by (intro map_cong) (auto simp: speedStep_other)
  with Cons.IH [OF d, of "speedStep sT rT k v st"] show ?case
    by (simp add: a speedStep_logged)
qed

lemma speedLoop_delta:
  "distinct (map fst C) \<Longrightarrow>
   delta (speedLoop C sT rT st) =
     delta st @ concat (map (\<lambda>(k, v). stepRow (map_of (oldBenches st) k) k v) C)"
proof (induction C arbitrary: st)
  case Nil
  then show ?case by simp
next
  case (Cons a C)
  obtain k v where a: "a = (k, v)" by (cases a)
  from Cons.prems a have k: "\<forall>(k', v') \<in> set C. k' \<noteq> k" and d: "distinct (map fst C)"
    by (auto simp: image_iff)
  have "map (\<lambda>(k', v'). stepRow (map_of (oldBenches (speedStep sT rT k v st)) k') k' v') C
      = map (\<lambda>(k', v'). stepRow (map_of (oldBenches st) k') k' v') C"
    using k by (intro map_cong) (auto simp: speedStep_other)
  with Cons.IH [OF d, of "speedStep sT rT k v st"] show ?case
    by (simp add: a speedStep_delta)
qed

lemma speedLoop_best:
  "distinct (map fst C) \<Longrightarrow>
   map_of (oldBenches (speedLoop C sT rT st)) k =
     (case map_of C k of
        None \<Rightarrow> map_of (oldBenches st) k
      | Some v \<Rightarrow> Some (stepBest sT rT (map_of (oldBenches st) k) v))"
proof (induction C arbitrary: st)
  case Nil
  then show ?case by simp
next
  case (Cons a C)
  obtain k' v' where a: "a = (k', v')" by (cases a)
  from Cons.prems a have k: "map_of C k' = None" and d: "distinct (map fst C)"
    by (auto simp: map_of_eq_None_iff)
  show ?case
  proof (cases "k = k'")
    case True
    with Cons.IH [OF d, of "speedStep sT rT k' v' st"] k show ?thesis
      by (simp add: a speedStep_best)
  next
    case False
    with Cons.IH [OF d, of "speedStep sT rT k' v' st"] show ?thesis
      by (simp add: a speedStep_other split: option.splits)
  qed
qed

lemma speedLoop_missing: "missing (speedLoop C sT rT st) = missing st"
proof (induction C arbitrary: st)
  case Nil
  then show ?case by simp
next
  case (Cons a C)
  obtain k v where a: "a = (k, v)" by (cases a)
  show ?case by (simp only: a speedLoop.simps Cons.IH speedStep_missing)
qed

lemma speedLoop_keys:
  "distinct (map fst (oldBenches st)) \<Longrightarrow> distinct (map fst (oldBenches (speedLoop C sT rT st)))"
proof (induction C arbitrary: st)
  case Nil
  then show ?case by simp
next
  case (Cons a C)
  obtain k v where a: "a = (k, v)" by (cases a)
  from Cons.prems have "distinct (map fst (oldBenches (speedStep sT rT k v st)))"
    by (rule speedStep_keys)
  then show ?case by (simp only: a speedLoop.simps Cons.IH)
qed

lemma speedLoop_tooSlow:
  "distinct (map fst C) \<Longrightarrow>
   tooSlow (speedLoop C sT rT st) =
     (tooSlow st \<or> (\<exists>(k, v) \<in> set C. stepSlow sT (map_of (oldBenches st) k) v))"
proof (induction C arbitrary: st)
  case Nil
  then show ?case by simp
next
  case (Cons a C)
  obtain k v where a: "a = (k, v)" by (cases a)
  from Cons.prems a have k: "\<And>k' v'. (k', v') \<in> set C \<Longrightarrow> k' \<noteq> k" and d: "distinct (map fst C)"
    by (auto simp: image_iff)
  have "(\<exists>(k', v') \<in> set C. stepSlow sT (map_of (oldBenches (speedStep sT rT k v st)) k') v')
      = (\<exists>(k', v') \<in> set C. stepSlow sT (map_of (oldBenches st) k') v')"
    using k by (intro bex_cong refl) (clarsimp simp: speedStep_other)
  with Cons.IH [OF d, of "speedStep sT rT k v st"] show ?case
    by (simp add: a speedStep_tooSlow disj_assoc)
qed

lemma update_fresh:
  "k \<notin> fst ` set al \<Longrightarrow> AList.update k v al = al @ [(k, v)]"
  by (induction al) auto

lemma noFileLoop_missing: "missing (noFileLoop C st) = missing st"
  by (induction C st rule: noFileLoop.induct) simp_all

lemma noFileLoop_tooSlow: "tooSlow (noFileLoop C st) = tooSlow st"
  by (induction C st rule: noFileLoop.induct) simp_all

lemma noFileLoop_logged: "logged (noFileLoop C st) = logged st"
  by (induction C st rule: noFileLoop.induct) simp_all

lemma noFileLoop_delta:
  "delta (noFileLoop C st) = delta st @ concat (map (\<lambda>(k, v). noFileRow k v) C)"
  by (induction C st rule: noFileLoop.induct) simp_all

lemma noFileLoop_oldBenches:
  "distinct (map fst (oldBenches st @ C)) \<Longrightarrow> oldBenches (noFileLoop C st) = oldBenches st @ C"
proof (induction C st rule: noFileLoop.induct)
  case (1 st)
  then show ?case by simp
next
  case (2 key speed rest st)
  from 2(2) have fresh: "key \<notin> fst ` set (oldBenches st)" by auto
  from 2(2) have "distinct (map fst ((oldBenches st @ [(key, speed)]) @ rest))" by auto
  with 2(1) fresh show ?case by (simp add: update_fresh)
qed

lemma absent_Nil [simp]: "absent [] benches = []"
  by (simp add: absent_def)

lemma absent_Cons:
  "absent ((k, v) # old) benches =
     (if map_of benches k = None then (k, v) # absent old benches else absent old benches)"
  by (simp add: absent_def)

lemma missingLoop_present:
  "map_of benches key = Some x \<Longrightarrow>
   missingLoop ((key, speed) # rest) benches fm st = missingLoop rest benches fm st"
  by simp

lemma missingLoop_absent:
  "map_of benches key = None \<Longrightarrow>
   missingLoop ((key, speed) # rest) benches fm st =
     missingLoop rest benches True
       (st\<lparr>delta := delta st @ missingRow key speed,
           missing := (if fm then missing st else True),
           logged := logged st @ (if fm then [] else [MissingHeader]) @ [MissingName key]\<rparr>)"
  by (cases st) (simp add: Let_def)

lemma missingLoop_oldBenches: "oldBenches (missingLoop old benches fm st) = oldBenches st"
proof (induction old arbitrary: fm st)
  case Nil
  then show ?case by simp
next
  case (Cons a old)
  obtain k v where a: "a = (k, v)" by (cases a)
  show ?case
    by (cases "map_of benches k") (simp_all only: a missingLoop_present missingLoop_absent Cons.IH, simp_all)
qed

lemma missingLoop_tooSlow: "tooSlow (missingLoop old benches fm st) = tooSlow st"
proof (induction old arbitrary: fm st)
  case Nil
  then show ?case by simp
next
  case (Cons a old)
  obtain k v where a: "a = (k, v)" by (cases a)
  show ?case
    by (cases "map_of benches k") (simp_all only: a missingLoop_present missingLoop_absent Cons.IH, simp_all)
qed

lemma missingLoop_delta:
  "delta (missingLoop old benches fm st) =
     delta st @ concat (map (\<lambda>(k, v). missingRow k v) (absent old benches))"
proof (induction old arbitrary: fm st)
  case Nil
  then show ?case by simp
next
  case (Cons a old)
  obtain k v where a: "a = (k, v)" by (cases a)
  show ?case
    by (cases "map_of benches k") (simp_all only: a missingLoop_present missingLoop_absent Cons.IH absent_Cons, simp_all)
qed

lemma missingLoop_missing:
  "missing (missingLoop old benches fm st) =
     (if fm \<or> absent old benches = [] then missing st else True)"
proof (induction old arbitrary: fm st)
  case Nil
  then show ?case by simp
next
  case (Cons a old)
  obtain k v where a: "a = (k, v)" by (cases a)
  show ?case
    by (cases "map_of benches k") (simp_all only: a missingLoop_present missingLoop_absent Cons.IH absent_Cons, simp_all)
qed

lemma missingLoop_logged:
  "logged (missingLoop old benches fm st) =
     logged st @ (if fm \<or> absent old benches = [] then [] else [MissingHeader])
       @ map (\<lambda>(k, v). MissingName k) (absent old benches)"
proof (induction old arbitrary: fm st)
  case Nil
  then show ?case by simp
next
  case (Cons a old)
  obtain k v where a: "a = (k, v)" by (cases a)
  show ?case
    by (cases "map_of benches k") (simp_all only: a missingLoop_present missingLoop_absent Cons.IH absent_Cons, simp_all)
qed

section \<open>The results of compare, field by field\<close>

lemma compare_Some_delta:
  "distinct (map fst C) \<Longrightarrow>
   delta (compare (Some B) C p sT rT) =
     header @ concat (map (\<lambda>(k, v). missingRow k v) (absent B C))
       @ concat (map (\<lambda>(k, v). stepRow (map_of B k) k v) C)"
  by (simp add: compare_def Let_def speedLoop_delta missingLoop_delta missingLoop_oldBenches)

lemma compare_Some_logged:
  "distinct (map fst C) \<Longrightarrow>
   logged (compare (Some B) C p sT rT) =
     (if absent B C = [] then [] else [MissingHeader])
       @ map (\<lambda>(k, v). MissingName k) (absent B C) @ [BlankLine]
       @ concat (map (\<lambda>(k, v). stepLog sT rT (map_of B k) k v) C)"
  by (simp add: compare_def Let_def speedLoop_logged missingLoop_logged missingLoop_oldBenches)

lemma compare_Some_missing:
  "missing (compare (Some B) C p sT rT) = (absent B C \<noteq> [])"
  by (simp add: compare_def Let_def speedLoop_missing missingLoop_missing)

lemma compare_Some_tooSlow:
  "distinct (map fst C) \<Longrightarrow>
   tooSlow (compare (Some B) C p sT rT) = (\<exists>(k, v) \<in> set C. stepSlow sT (map_of B k) v)"
  by (simp add: compare_def Let_def speedLoop_tooSlow missingLoop_tooSlow missingLoop_oldBenches)

lemma compare_Some_best:
  "distinct (map fst C) \<Longrightarrow>
   map_of (oldBenches (compare (Some B) C p sT rT)) k =
     (case map_of C k of
        None \<Rightarrow> map_of B k
      | Some v \<Rightarrow> Some (stepBest sT rT (map_of B k) v))"
  by (simp add: compare_def Let_def speedLoop_best missingLoop_oldBenches split: option.split)

lemma compare_Some_keys:
  "distinct (map fst B) \<Longrightarrow> distinct (map fst (oldBenches (compare (Some B) C p sT rT)))"
  by (simp add: compare_def Let_def speedLoop_keys missingLoop_oldBenches)

lemma sublist_concat_map:
  "x \<in> set xs \<Longrightarrow> sublist (f x) (concat (map f xs))"
proof -
  assume "x \<in> set xs"
  then obtain ys zs where "xs = ys @ x # zs" by (auto simp: in_set_conv_decomp)
  then have "concat (map f xs) = concat (map f ys) @ f x @ concat (map f zs)" by simp
  then show ?thesis unfolding sublist_def by blast
qed

lemma sublist_appendI1: "sublist xs ys \<Longrightarrow> sublist xs (ys @ zs)"
  unfolding sublist_def by (metis append.assoc)

lemma sublist_appendI2: "sublist xs zs \<Longrightarrow> sublist xs (ys @ zs)"
  unfolding sublist_def by (metis append.assoc)

lemma absent_iff:
  "(k, v) \<in> set (absent B C) \<longleftrightarrow> (k, v) \<in> set B \<and> map_of C k = None"
  by (auto simp: absent_def)

lemma f64_gt_NaN_right [simp]: "f64_gt a NaN = False"
  by (cases a) simp_all

lemma speedStep_unchanged:
  assumes "map_of (oldBenches st) k = Some v"
    and "\<not> f64_gt (Finite 1) sT" and "\<not> f64_lt (Finite 1) rT"
  shows "speedStep sT rT k v st = st\<lparr>delta := delta st @ speedRow k v v (factor_of v v)\<rparr>"
proof (cases "v = 0")
  case True
  then have "factor_of v v = NaN" by (simp add: factor_of_same)
  with assms(1) show ?thesis by (simp add: speedStep_def f64_lt_def)
next
  case False
  then have "factor_of v v = Finite 1" by (simp add: factor_of_same)
  with assms show ?thesis by (simp add: speedStep_def)
qed

lemma speedLoop_unchanged:
  assumes "\<not> f64_gt (Finite 1) sT" and "\<not> f64_lt (Finite 1) rT"
  shows "\<forall>(k, v) \<in> set C. map_of (oldBenches st) k = Some v \<Longrightarrow>
         speedLoop C sT rT st =
           st\<lparr>delta := delta st @ concat (map (\<lambda>(k, v). speedRow k v v (factor_of v v)) C)\<rparr>"
proof (induction C arbitrary: st)
  case Nil
  then show ?case by simp
next
  case (Cons a C)
  obtain k v where a: "a = (k, v)" by (cases a)
  from Cons.prems a have kv: "map_of (oldBenches st) k = Some v" by simp
  let ?st = "st\<lparr>delta := delta st @ speedRow k v v (factor_of v v)\<rparr>"
  have step: "speedStep sT rT k v st = ?st" by (rule speedStep_unchanged [OF kv assms])
  from Cons.prems have "\<forall>(k, v) \<in> set C. map_of (oldBenches ?st) k = Some v" by simp
  then have "speedLoop C sT rT ?st =
      ?st\<lparr>delta := delta ?st @ concat (map (\<lambda>(k, v). speedRow k v v (factor_of v v)) C)\<rparr>"
    by (rule Cons.IH)
  then show ?case by (simp add: a step)
qed

lemma absent_self: "distinct (map fst B) \<Longrightarrow> absent B B = []"
  by (auto simp: absent_def filter_empty_conv map_of_eq_None_iff image_iff)

lemma missingLoop_none: "absent old benches = [] \<Longrightarrow> missingLoop old benches fm st = st"
proof (induction old arbitrary: fm st)
  case Nil
  then show ?case by simp
next
  case (Cons a old)
  obtain k v where a: "a = (k, v)" by (cases a)
  from Cons.prems a obtain x where x: "map_of benches k = Some x"
    by (auto simp: absent_Cons split: if_splits)
  with Cons.prems a have "absent old benches = []" by (simp add: absent_Cons)
  with Cons.IH x show ?case by (simp add: a)
qed











section \<open>Properties of tabAlign\<close>

lemma split_not_Nil [simp]: "split sep s \<noteq> []"
  by (induction s) (auto split: list.split)

lemma length_four:
  "length xs = 4 \<Longrightarrow> \<exists>a b c d. xs = [a, b, c, d]"
  by (auto simp: eval_nat_numeral length_Suc_conv)

lemma upt_4: "[0..<4] = [0, 1, 2, 3]"
  by (simp add: eval_nat_numeral upt_rec)

lemma upt_3: "[0..<3] = [0, 1, 2]"
  by (simp add: eval_nat_numeral upt_rec)

lemma updateMax_four:
  "updateMax [a0, a1, a2, a3] [c0, c1, c2, c3] =
     [intMax a0 (int (length c0)), intMax a1 (int (length c1)),
      intMax a2 (int (length c2)), intMax a3 (int (length c3))]"
  by (simp add: updateMax_def upt_4)

lemma intMax_int: "intMax (int a) (int b) = int (max b a)"
  by (simp add: intMax_def max_def)

lemma widthFrom_Nil [simp]: "widthFrom [] i a = a"
  by (simp add: widthFrom_def)

lemma widthFrom_Cons:
  "widthFrom (row # rows) i a =
     (if wellFormed row then widthFrom rows i (max (length (split tab row ! i)) a)
      else widthFrom rows i a)"
  by (simp add: widthFrom_def)

lemma colWidth_widthFrom: "colWidth rows i = widthFrom rows i 0"
  by (simp add: colWidth_def widthFrom_def)

lemma maxWidths_from:
  "fold (\<lambda>row mx. let cols = split tab row in if length cols \<noteq> 4 then mx else updateMax mx cols)
     rows [int a0, int a1, int a2, int a3] =
   [int (widthFrom rows 0 a0), int (widthFrom rows 1 a1),
    int (widthFrom rows 2 a2), int (widthFrom rows 3 a3)]"
proof (induction rows arbitrary: a0 a1 a2 a3)
  case Nil
  then show ?case by simp
next
  case (Cons row rows)
  show ?case
  proof (cases "wellFormed row")
    case False
    then show ?thesis by (simp add: Cons.IH widthFrom_Cons wellFormed_def)
  next
    case True
    then obtain c0 c1 c2 c3 where cols: "split tab row = [c0, c1, c2, c3]"
      unfolding wellFormed_def by (blast dest: length_four)
    have "updateMax [int a0, int a1, int a2, int a3] (split tab row) =
        [int (max (length c0) a0), int (max (length c1) a1),
         int (max (length c2) a2), int (max (length c3) a3)]"
      by (simp only: cols updateMax_four intMax_int)
    with True show ?thesis
      by (simp add: Cons.IH widthFrom_Cons cols)
  qed
qed

lemma maxWidths_colWidth:
  "maxWidths rows =
     [int (colWidth rows 0), int (colWidth rows 1), int (colWidth rows 2), int (colWidth rows 3)]"
  using maxWidths_from [of rows 0 0 0 0] by (simp add: maxWidths_def colWidth_widthFrom)

lemma fold_max_ge: "a \<le> fold max xs (a::nat)"
  by (induction xs arbitrary: a) (auto intro: order_trans [OF max.cobounded2])

lemma fold_max_mem: "x \<in> set xs \<Longrightarrow> x \<le> fold max xs (a::nat)"
proof (induction xs arbitrary: a)
  case Nil
  then show ?case by simp
next
  case (Cons y ys)
  show ?case
  proof (cases "x = y")
    case True
    have "y \<le> max y a" by simp
    also have "\<dots> \<le> fold max ys (max y a)" by (rule fold_max_ge)
    finally show ?thesis using True by simp
  next
    case False
    with Cons.prems have "x \<in> set ys" by simp
    then show ?thesis by (simp add: Cons.IH)
  qed
qed

lemma colWidth_ge:
  "row \<in> set rows \<Longrightarrow> wellFormed row \<Longrightarrow> length (split tab row ! i) \<le> colWidth rows i"
  unfolding colWidth_def by (rule fold_max_mem) auto


lemma repeat_space: "0 \<le> n \<Longrightarrow> repeat '' '' n = Some (replicate (nat n) CHR '' '')"
proof -
  have "concat (replicate k '' '') = replicate k CHR '' ''" for k
    by (induction k) simp_all
  then show "0 \<le> n \<Longrightarrow> repeat '' '' n = Some (replicate (nat n) CHR '' '')"
    by (simp add: repeat_def)
qed

lemma alignRow_four:
  assumes "length c0 \<le> w0" and "length c1 \<le> w1" and "length c2 \<le> w2"
  shows "alignRow [int w0, int w1, int w2, int w3] [c0, c1, c2, c3] =
         Some (padField w0 c0 @ padField w1 c1 @ padField w2 c2 @ c3)"
proof -
  have p: "repeat '' '' (int w - int (length c) + 4) = Some (replicate (w - length c + 4) CHR '' '')"
    if "length c \<le> w" for w c
  proof -
    from that have "int w - int (length c) + 4 = int (w - length c + 4)" by simp
    then show ?thesis by (simp only: repeat_space of_nat_0_le_iff nat_int)
  qed
  show ?thesis
    by (simp add: alignRow_def upt_3 p [OF assms(1)] p [OF assms(2)] p [OF assms(3)] padField_def)
qed

lemma those_map_Some:
  "(\<And>x. x \<in> set xs \<Longrightarrow> f x = Some (g x)) \<Longrightarrow> those (map f xs) = Some (map g xs)"
  by (induction xs) simp_all

lemma tabAlign_render:
  "tabAlign table =
     Some (join [nl]
       (map (\<lambda>row. if wellFormed row then renderRow (split nl table) row else [])
          (split nl table)))"
proof -
  let ?rows = "split nl table"
  let ?mx = "[int (colWidth ?rows 0), int (colWidth ?rows 1), int (colWidth ?rows 2),
              int (colWidth ?rows 3)]"
  have row: "(let cols = split tab row in if length cols \<noteq> 4 then Some [] else alignRow ?mx cols) =
      Some (if wellFormed row then renderRow ?rows row else [])"
    if mem: "row \<in> set ?rows" for row
  proof (cases "wellFormed row")
    case False
    then show ?thesis by (simp add: wellFormed_def)
  next
    case True
    then obtain c0 c1 c2 c3 where cols: "split tab row = [c0, c1, c2, c3]"
      unfolding wellFormed_def by (blast dest: length_four)
    from colWidth_ge [OF mem True, of 0] have 0: "length c0 \<le> colWidth ?rows 0" by (simp add: cols)
    from colWidth_ge [OF mem True, of 1] have 1: "length c1 \<le> colWidth ?rows 1" by (simp add: cols)
    from colWidth_ge [OF mem True, of 2] have 2: "length c2 \<le> colWidth ?rows 2" by (simp add: cols)
    from True alignRow_four [OF 0 1 2, of "colWidth ?rows 3" c3] show ?thesis
      by (simp add: cols renderRow_def)
  qed
  have "those (map (\<lambda>row. let cols = split tab row
                          in if length cols \<noteq> 4 then Some [] else alignRow ?mx cols) ?rows) =
        Some (map (\<lambda>row. if wellFormed row then renderRow ?rows row else []) ?rows)"
    by (rule those_map_Some) (rule row)
  then show ?thesis
    by (simp add: tabAlign_def maxWidths_colWidth Let_def del: One_nat_def)
qed

section \<open>Properties of findGosrc\<close>
lemma prefix_drop_length: "prefix substr (drop i s) \<Longrightarrow> i \<le> length s \<Longrightarrow> i + length substr \<le> length s"
  by (drule prefix_length_le) simp

lemma lastIndexFrom_none:
  "lastIndexFrom s substr n = - 1 \<longleftrightarrow> (\<forall>i \<le> n. \<not> prefix substr (drop i s))"
proof (induction n)
  case 0
  then show ?case by simp
next
  case (Suc n)
  show ?case by (auto simp: Suc.IH le_Suc_eq)
qed

lemma lastIndexFrom_last:
  assumes "i \<le> n" and "prefix substr (drop i s)"
    and "\<And>j. i < j \<Longrightarrow> j \<le> n \<Longrightarrow> \<not> prefix substr (drop j s)"
  shows "lastIndexFrom s substr n = int i"
  using assms
proof (induction n)
  case 0
  then show ?case by simp
next
  case (Suc n)
  show ?case
  proof (cases "i = Suc n")
    case True
    with Suc.prems(2) show ?thesis by simp
  next
    case False
    with Suc.prems(1) have le: "i \<le> n" by simp
    from Suc.prems(3) [of "Suc n"] le have no: "\<not> prefix substr (drop (Suc n) s)" by simp
    have "lastIndexFrom s substr n = int i"
      using le Suc.prems(2) Suc.prems(3) by (intro Suc.IH) auto
    with no show ?thesis by simp
  qed
qed

lemma lastIndex_none: "lastIndex s substr = - 1 \<longleftrightarrow> (\<forall>i. \<not> occursAt substr s i)"
proof (cases "length substr \<le> length s")
  case False
  then have "\<not> occursAt substr s i" for i
    unfolding occursAt_def by (auto dest: prefix_length_le)
  with False show ?thesis by (simp add: lastIndex_def)
next
  case True
  have "(\<forall>i \<le> length s - length substr. \<not> prefix substr (drop i s)) \<longleftrightarrow>
        (\<forall>i. \<not> occursAt substr s i)"
    unfolding occursAt_def using prefix_drop_length [of substr _ s] by (auto; fastforce)
  with True show ?thesis by (simp add: lastIndex_def lastIndexFrom_none)
qed

lemma lastIndex_last:
  assumes "occursAt substr s i" and "\<And>j. occursAt substr s j \<Longrightarrow> j \<le> i"
  shows "lastIndex s substr = int i"
proof -
  from assms(1) have il: "i \<le> length s" and pre: "prefix substr (drop i s)"
    by (simp_all add: occursAt_def)
  from prefix_drop_length [OF pre il] have le: "length substr \<le> length s"
    and i: "i \<le> length s - length substr" by simp_all
  have "lastIndexFrom s substr (length s - length substr) = int i"
  proof (rule lastIndexFrom_last [OF i pre])
    fix j assume "i < j" and "j \<le> length s - length substr"
    show "\<not> prefix substr (drop j s)"
    proof
      assume "prefix substr (drop j s)"
      with \<open>j \<le> length s - length substr\<close> have "occursAt substr s j" by (simp add: occursAt_def)
      with assms(2) \<open>i < j\<close> show False by fastforce
    qed
  qed
  with le show ?thesis by (simp add: lastIndex_def)
qed

lemma lastIndex_cases:
  "(lastIndex s substr = - 1 \<and> (\<forall>i. \<not> occursAt substr s i)) \<or>
   (\<exists>i. lastIndex s substr = int i \<and> occursAt substr s i \<and> (\<forall>j. occursAt substr s j \<longrightarrow> j \<le> i))"
proof (cases "\<forall>i. \<not> occursAt substr s i")
  case True
  then show ?thesis by (simp add: lastIndex_none)
next
  case False
  then obtain i0 where i0: "occursAt substr s i0" by blast
  have bound: "occursAt substr s j \<Longrightarrow> j \<le> length s" for j by (simp add: occursAt_def)
  define i where "i = (GREATEST j. occursAt substr s j)"
  have occ: "occursAt substr s i" unfolding i_def
    by (rule GreatestI_nat [of "occursAt substr s" i0 "length s"]) (auto intro: i0 dest: bound)
  have mx: "occursAt substr s j \<Longrightarrow> j \<le> i" for j unfolding i_def
    by (rule Greatest_le_nat [of "occursAt substr s" j "length s"]) (auto dest: bound)
  from lastIndex_last [OF occ mx] occ mx show ?thesis by blast
qed

section \<open>Properties of the parser\<close>

lemma parseLines_measurement:
  "measurementLine line \<Longrightarrow>
   parseLines (line # rest) record cur =
     (case ParseUint (timingField line) of
        None \<Rightarrow> Inl ConvertProblem
      | Some t \<Rightarrow> parseLines rest record (AList.update (columns line ! 0) t cur))"
  unfolding measurementLine_def timingField_def columns_def by (simp add: Let_def)

lemma parseLines_flush:
  "flushLine line \<Longrightarrow>
   parseLines (line # rest) record cur =
     parseLines rest (AList.update (columns line ! 1) cur record) []"
  unfolding flushLine_def columns_def by (auto simp add: Let_def)

lemma parseLines_other:
  "\<not> measurementLine line \<Longrightarrow> \<not> flushLine line \<Longrightarrow>
   parseLines (line # rest) record cur = parseLines rest record cur"
  unfolding measurementLine_def flushLine_def columns_def by (auto simp add: Let_def)

declare parseLines.simps(2) [simp del]

lemma parseLines_bad_line:
  assumes "measurementLine bad" and "ParseUint (timingField bad) = None"
  shows "bad \<in> set lines \<Longrightarrow> parseLines lines rcd cur = Inl ConvertProblem"
proof (induction lines arbitrary: rcd cur)
  case Nil
  then show ?case by simp
next
  case (Cons line lines)
  show ?case
  proof (cases "line = bad")
    case True
    with assms show ?thesis by (simp add: parseLines_measurement)
  next
    case False
    with Cons.prems have mem: "bad \<in> set lines" by simp
    consider (m) "measurementLine line" | (f) "flushLine line"
      | (o) "\<not> measurementLine line" and "\<not> flushLine line" by blast
    then show ?thesis
    proof cases
      case m
      then show ?thesis
        by (cases "ParseUint (timingField line)")
           (simp_all add: parseLines_measurement Cons.IH [OF mem])
    next
      case f
      then show ?thesis by (simp add: parseLines_flush Cons.IH [OF mem])
    next
      case o
      then show ?thesis by (simp add: parseLines_other Cons.IH [OF mem])
    qed
  qed
qed

lemmas parse_eval = columns_def TrimSpace_def trimPrefixes.simps spaceEncodings_def TrimRight_def
  ParseUint_def isDigit_def digitVal_def measurementLine_def timingField_def flushLine_def

lemma split_append_sep: "split sep (xs @ sep # ys) = split sep xs @ split sep ys"
proof (induction xs)
  case Nil
  then show ?case by simp
next
  case (Cons c xs)
  obtain w ws where w: "split sep xs = w # ws" by (cases "split sep xs") simp_all
  with Cons show ?case by simp
qed

lemma parseLines_tail:
  "\<forall>line \<in> set tlines. \<not> flushLine line \<and> (measurementLine line \<longrightarrow> ParseUint (timingField line) \<noteq> None)
   \<Longrightarrow> parseLines tlines rcd cur = Inr rcd"
proof (induction tlines arbitrary: cur)
  case Nil
  then show ?case by simp
next
  case (Cons line tlines)
  from Cons.prems have rest: "\<forall>line \<in> set tlines. \<not> flushLine line \<and>
      (measurementLine line \<longrightarrow> ParseUint (timingField line) \<noteq> None)" by simp
  from Cons.prems have nf: "\<not> flushLine line" by simp
  show ?case
  proof (cases "measurementLine line")
    case True
    with Cons.prems obtain t where "ParseUint (timingField line) = Some t" by auto
    with True show ?thesis by (simp add: parseLines_measurement Cons.IH [OF rest])
  next
    case False
    with nf show ?thesis by (simp add: parseLines_other Cons.IH [OF rest])
  qed
qed

lemma parseLines_append_tail:
  assumes "\<forall>line \<in> set tlines. \<not> flushLine line \<and>
      (measurementLine line \<longrightarrow> ParseUint (timingField line) \<noteq> None)"
  shows "parseLines (xs @ tlines) rcd cur = parseLines xs rcd cur"
proof (induction xs arbitrary: rcd cur)
  case Nil
  show ?case by (simp add: parseLines_tail [OF assms])
next
  case (Cons line xs)
  consider (m) "measurementLine line" | (f) "flushLine line"
    | (o) "\<not> measurementLine line" and "\<not> flushLine line" by blast
  then show ?case
  proof cases
    case m
    then show ?thesis
      by (cases "ParseUint (timingField line)") (simp_all add: parseLines_measurement Cons.IH)
  next
    case f
    then show ?thesis by (simp add: parseLines_flush Cons.IH)
  next
    case o
    then show ?thesis by (simp add: parseLines_other Cons.IH)
  qed
qed

lemma parse_example:
  "runAndStoreBenches (Some (''BenchmarkA'' @ tab # ''1'' @ tab # ''5 ns/op'' @ nl # ''ok'' @ tab # ''pkg'' @ tab # ''1s'')) =
     Inr [(''pkg'', [(''BenchmarkA'', 5)])]"
  by (simp add: runAndStoreBenches_def parseLines.simps parse_eval)

section \<open>Properties of compare on references\<close>

lemma perm_alist:
  assumes "distinct (map fst xs)" and "mset ys = mset xs"
  shows "distinct (map fst ys)" and "map_of ys = map_of xs" and "set ys = set xs"
proof -
  from assms(2) have "mset (map fst ys) = mset (map fst xs)" by simp
  with assms(1) show d: "distinct (map fst ys)" by (metis mset_eq_imp_distinct_iff)
  from assms(2) show s: "set ys = set xs" by (rule mset_eq_setD)
  from d assms(1) s show "map_of ys = map_of xs" by (simp add: map_of_inject_set)
qed

lemma absent_perm:
  assumes "mset B' = mset B" and "map_of C' = map_of C"
  shows "mset (absent B' C') = mset (absent B C)"
  using assms by (simp add: absent_def)

lemma speedStep_current_kept:
  "map_of (oldBenches st) k = Some v \<Longrightarrow> oldBenches (speedStep sT rT k v st) = oldBenches st"
  by (simp add: speedStep_def Let_def update_triv)

lemma speedLoop_current_kept:
  "\<forall>(k, v) \<in> set C. map_of (oldBenches st) k = Some v \<Longrightarrow>
   oldBenches (speedLoop C sT rT st) = oldBenches st"
proof (induction C arbitrary: st)
  case Nil
  then show ?case by simp
next
  case (Cons a C)
  obtain k v where a: "a = (k, v)" by (cases a)
  from Cons.prems a have kv: "map_of (oldBenches st) k = Some v" by simp
  have keep: "oldBenches (speedStep sT rT k v st) = oldBenches st"
    by (rule speedStep_current_kept [OF kv])
  from Cons.prems have "\<forall>(k', v') \<in> set C. map_of (oldBenches (speedStep sT rT k v st)) k' = Some v'"
    by (simp add: keep)
  then have "oldBenches (speedLoop C sT rT (speedStep sT rT k v st)) = oldBenches (speedStep sT rT k v st)"
    by (rule Cons.IH)
  then show ?case by (simp add: a keep)
qed

lemma compare_self_kept:
  assumes "distinct (map fst B)"
  shows "oldBenches (compare (Some B) B p sT rT) = B"
proof -
  let ?st = "(missingLoop B B False \<lparr>delta = header, oldBenches = B, missing = False,
      tooSlow = False, logged = []\<rparr>)\<lparr>logged := logged (missingLoop B B False \<lparr>delta = header,
      oldBenches = B, missing = False, tooSlow = False, logged = []\<rparr>) @ [BlankLine]\<rparr>"
  have ob: "oldBenches ?st = B" by (simp add: missingLoop_oldBenches)
  from assms have "\<forall>(k, v) \<in> set B. map_of (oldBenches ?st) k = Some v" by (auto simp: ob)
  then have "oldBenches (speedLoop B sT rT ?st) = oldBenches ?st" by (rule speedLoop_current_kept)
  then show ?thesis by (simp add: compare_def Let_def ob)
qed

lemma compare_None_kept:
  "distinct (map fst C) \<Longrightarrow> oldBenches (compare None C p sT rT) = C"
  by (simp add: compare_def noFileLoop_oldBenches)

lemma compareRef_frame:
  assumes "distinct (map fst (readMap h benchesRef))"
    and "compareRef h oldRef benchesRef p sT rT = (r, a, h')"
  shows "\<forall>c. c \<noteq> a \<longrightarrow> maps h' c = maps h c"
    and "\<forall>b. benchesRef = Some b \<longrightarrow> maps h' b = maps h b"
    and "maps h' a = oldBenches r"
    and "case oldRef of Some a0 \<Rightarrow> a = a0 \<and> free h' = free h
         | None \<Rightarrow> a = free h \<and> free h' = Suc (free h)"
proof -
  show "\<forall>c. c \<noteq> a \<longrightarrow> maps h' c = maps h c"
    using assms(2) by (auto simp: compareRef_def Let_def split: option.splits)
  show "maps h' a = oldBenches r"
    using assms(2) by (auto simp: compareRef_def Let_def split: option.splits)
  show "case oldRef of Some a0 \<Rightarrow> a = a0 \<and> free h' = free h
         | None \<Rightarrow> a = free h \<and> free h' = Suc (free h)"
    using assms(2) by (auto simp: compareRef_def Let_def split: option.splits)
  show "\<forall>b. benchesRef = Some b \<longrightarrow> maps h' b = maps h b"
  proof (intro allI impI)
    fix b assume b: "benchesRef = Some b"
    show "maps h' b = maps h b"
    proof (cases "oldRef = Some b")
      case True
      with assms b show ?thesis
        by (auto simp: compareRef_def Let_def readMap_def compare_self_kept)
    next
      case False
      with assms b show ?thesis
        by (auto simp: compareRef_def Let_def readMap_def compare_None_kept split: option.splits)
    qed
  qed
qed


lemma compare_Some_perm:
  assumes "distinct (map fst B)" and "distinct (map fst C)"
    and "mset B' = mset B" and "mset C' = mset C"
  shows "missing (compare (Some B') C' p sT rT) = missing (compare (Some B) C p sT rT)"
    and "tooSlow (compare (Some B') C' p sT rT) = tooSlow (compare (Some B) C p sT rT)"
    and "map_of (oldBenches (compare (Some B') C' p sT rT)) =
         map_of (oldBenches (compare (Some B) C p sT rT))"
    and "delta (compare (Some B) C p sT rT) = header @ concat (deltaRows (Some B) C)"
    and "delta (compare (Some B') C' p sT rT) = header @ concat (deltaRows (Some B') C')"
    and "mset (deltaRows (Some B') C') = mset (deltaRows (Some B) C)"
proof -
  note pB = perm_alist [OF assms(1,3)] and pC = perm_alist [OF assms(2,4)]
  have ab: "mset (absent B' C') = mset (absent B C)"
    by (rule absent_perm [OF assms(3) pC(2)])
  have "(absent B' C' = []) = (absent B C = [])"
    using ab by (metis mset_zero_iff)
  then show "missing (compare (Some B') C' p sT rT) = missing (compare (Some B) C p sT rT)"
    by (simp add: compare_Some_missing)
  show "tooSlow (compare (Some B') C' p sT rT) = tooSlow (compare (Some B) C p sT rT)"
    by (simp add: compare_Some_tooSlow [OF assms(2)] compare_Some_tooSlow [OF pC(1)] pC(3) pB(2))
  show "map_of (oldBenches (compare (Some B') C' p sT rT)) =
         map_of (oldBenches (compare (Some B) C p sT rT))"
    by (rule ext)
       (simp add: compare_Some_best [OF assms(2)] compare_Some_best [OF pC(1)] pC(2) pB(2)
          cong: option.case_cong)
  show "delta (compare (Some B) C p sT rT) = header @ concat (deltaRows (Some B) C)"
    by (simp add: compare_Some_delta [OF assms(2)] deltaRows_def)
  show "delta (compare (Some B') C' p sT rT) = header @ concat (deltaRows (Some B') C')"
    by (simp add: compare_Some_delta [OF pC(1)] deltaRows_def)
  show "mset (deltaRows (Some B') C') = mset (deltaRows (Some B) C)"
    using ab assms(4) by (simp add: deltaRows_def pB(2))
qed

lemma compare_None_perm:
  assumes "distinct (map fst C)" and "mset C' = mset C"
  shows "missing (compare None C' p sT rT) = missing (compare None C p sT rT)"
    and "tooSlow (compare None C' p sT rT) = tooSlow (compare None C p sT rT)"
    and "map_of (oldBenches (compare None C' p sT rT)) = map_of (oldBenches (compare None C p sT rT))"
    and "delta (compare None C p sT rT) = header @ concat (deltaRows None C)"
    and "delta (compare None C' p sT rT) = header @ concat (deltaRows None C')"
    and "mset (deltaRows None C') = mset (deltaRows None C)"
proof -
  note pC = perm_alist [OF assms]
  show "missing (compare None C' p sT rT) = missing (compare None C p sT rT)"
    by (simp add: compare_def noFileLoop_missing)
  show "tooSlow (compare None C' p sT rT) = tooSlow (compare None C p sT rT)"
    by (simp add: compare_def noFileLoop_tooSlow)
  show "map_of (oldBenches (compare None C' p sT rT)) = map_of (oldBenches (compare None C p sT rT))"
    by (simp add: compare_None_kept [OF assms(1)] compare_None_kept [OF pC(1)] pC(2))
  show "delta (compare None C p sT rT) = header @ concat (deltaRows None C)"
    by (simp add: compare_def noFileLoop_delta deltaRows_def)
  show "delta (compare None C' p sT rT) = header @ concat (deltaRows None C')"
    by (simp add: compare_def noFileLoop_delta deltaRows_def)
  show "mset (deltaRows None C') = mset (deltaRows None C)"
    using assms(2) by (simp add: deltaRows_def)
qed

section \<open>Claims about compare\<close>

text \<open>
  C1. A benchmark that is in both records and whose factor
  \<open>float64(speed) / float64(oldSpeed)\<close> is greater than \<open>speedTol\<close> is reported slower than
  expected (and not as a new record), \<open>tooSlow\<close> is set, \<open>delta\<close> has its row, and the
  returned best benchmarks keep its old speed.
\<close>

theorem compare_regression_keeps_old:
  assumes "distinct (map fst C)"
    and "map_of B k = Some oldSpeed" and "map_of C k = Some speed"
    and "f64_gt (factor_of speed oldSpeed) sT"
  shows "tooSlow (compare (Some B) C p sT rT) \<and>
         map_of (oldBenches (compare (Some B) C p sT rT)) k = Some oldSpeed \<and>
         SlowerThanExpected k (factor_of speed oldSpeed) \<in> set (logged (compare (Some B) C p sT rT)) \<and>
         NewRecord k (factor_of speed oldSpeed) \<notin> set (logged (compare (Some B) C p sT rT)) \<and>
         sublist (speedRow k speed oldSpeed (factor_of speed oldSpeed))
           (delta (compare (Some B) C p sT rT))"
proof -
  from assms(3) have mem: "(k, speed) \<in> set C" by (rule map_of_SomeD)
  have slow: "stepSlow sT (map_of B k) speed" using assms(2,4) by (simp add: stepSlow_def)
  with mem have 1: "tooSlow (compare (Some B) C p sT rT)"
    by (auto simp: compare_Some_tooSlow [OF assms(1)])
  have 2: "map_of (oldBenches (compare (Some B) C p sT rT)) k = Some oldSpeed"
    using assms(2,3,4) by (simp add: compare_Some_best [OF assms(1)] stepBest_def)
  have "stepLog sT rT (map_of B k) k speed = [SlowerThanExpected k (factor_of speed oldSpeed)]"
    using assms(2,4) by (simp add: stepLog_def)
  with mem have 3: "SlowerThanExpected k (factor_of speed oldSpeed) \<in> set (logged (compare (Some B) C p sT rT))"
    by (force simp: compare_Some_logged [OF assms(1)])
  have 4: "NewRecord k (factor_of speed oldSpeed) \<notin> set (logged (compare (Some B) C p sT rT))"
  proof
    assume "NewRecord k (factor_of speed oldSpeed) \<in> set (logged (compare (Some B) C p sT rT))"
    then obtain k' v' where kv: "(k', v') \<in> set C"
      and nr: "NewRecord k (factor_of speed oldSpeed) \<in> set (stepLog sT rT (map_of B k') k' v')"
      by (auto simp: compare_Some_logged [OF assms(1)] split: if_splits)
    from nr have "k' = k" by (auto simp: stepLog_def split: option.splits if_splits)
    with kv assms(1,3) have "v' = speed" by (metis map_of_is_SomeI option.inject)
    with nr \<open>k' = k\<close> assms(2,4) show False by (simp add: stepLog_def)
  qed
  have "stepRow (map_of B k) k speed = speedRow k speed oldSpeed (factor_of speed oldSpeed)"
    using assms(2) by (simp add: stepRow_def)
  with mem have "sublist (speedRow k speed oldSpeed (factor_of speed oldSpeed))
      (concat (map (\<lambda>(k, v). stepRow (map_of B k) k v) C))"
    using sublist_concat_map [of "(k, speed)" C "\<lambda>(k, v). stepRow (map_of B k) k v"] by simp
  then have 5: "sublist (speedRow k speed oldSpeed (factor_of speed oldSpeed))
           (delta (compare (Some B) C p sT rT))"
    by (simp add: compare_Some_delta [OF assms(1)] sublist_appendI2)
  from 1 2 3 4 5 show ?thesis by simp
qed

theorem compare_regression_keeps_old_witness:
  "distinct (map fst [(''X'', 500000000 :: uint64), (''Y'', 5000000000)]) \<and>
   map_of [(''X'', 1 :: uint64), (''Y'', 1)] ''X'' = Some 1 \<and>
   map_of [(''X'', 500000000 :: uint64), (''Y'', 5000000000)] ''X'' = Some 500000000 \<and>
   f64_gt (factor_of 500000000 1) (Finite (3 / 2)) \<and>
   tooSlow (compare (Some [(''X'', 1), (''Y'', 1)]) [(''X'', 500000000), (''Y'', 5000000000)]
     ''pkg'' (Finite (3 / 2)) (Finite (7 / 10))) \<and>
   map_of (oldBenches (compare (Some [(''X'', 1), (''Y'', 1)])
     [(''X'', 500000000), (''Y'', 5000000000)] ''pkg'' (Finite (3 / 2)) (Finite (7 / 10)))) ''X''
     = Some 1"
  using compare_regression_keeps_old [of "[(''X'', 500000000), (''Y'', 5000000000)]"
      "[(''X'', 1), (''Y'', 1)]" "''X''" 1 500000000 "Finite (3 / 2)" "''pkg''" "Finite (7 / 10)"]
  by (simp add: factor_of_500000000_1)

text \<open>
  C3. Without a previous record (\<open>oldBenches\<close> is \<open>nil\<close>), \<open>compare\<close> reports every
  benchmark of the current record with a \<open>NO FILE\<close> row (it is new), in the order of the
  loop, writes nothing else but the header, sets neither \<open>missing\<close> nor \<open>tooSlow\<close>, and
  returns as best benchmarks a map with exactly the entries of the current record.
\<close>

theorem compare_without_baseline:
  "distinct (map fst C) \<Longrightarrow>
   delta (compare None C p sT rT) = header @ concat (map (\<lambda>(k, v). noFileRow k v) C) \<and>
   oldBenches (compare None C p sT rT) = C \<and>
   \<not> missing (compare None C p sT rT) \<and>
   \<not> tooSlow (compare None C p sT rT) \<and>
   logged (compare None C p sT rT) = [NoBestOnRecord]"
  by (simp add: compare_def noFileLoop_delta noFileLoop_oldBenches noFileLoop_missing
      noFileLoop_tooSlow noFileLoop_logged)

theorem compare_without_baseline_witness:
  "distinct (map fst [(''A'', 500 :: uint64), (''B'', 10000)]) \<and>
   delta (compare None [(''A'', 500), (''B'', 10000)] ''pkg'' (Finite (3 / 2)) (Finite (7 / 10))) =
     header @ noFileRow ''A'' 500 @ noFileRow ''B'' 10000 \<and>
   oldBenches (compare None [(''A'', 500), (''B'', 10000)] ''pkg'' (Finite (3 / 2)) (Finite (7 / 10))) =
     [(''A'', 500), (''B'', 10000)] \<and>
   \<not> missing (compare None [(''A'', 500), (''B'', 10000)] ''pkg'' (Finite (3 / 2)) (Finite (7 / 10))) \<and>
   \<not> tooSlow (compare None [(''A'', 500), (''B'', 10000)] ''pkg'' (Finite (3 / 2)) (Finite (7 / 10)))"
  using compare_without_baseline [of "[(''A'', 500), (''B'', 10000)]" "''pkg''" "Finite (3 / 2)" "Finite (7 / 10)"]
  by simp

text \<open>
  C2. With a previous record \<open>B\<close>, every benchmark of \<open>B\<close> is still in the returned best
  benchmarks. A benchmark of \<open>B\<close> that the current record lacks is reported missing (the
  log names it and \<open>delta\<close> has its \<open>MISSING\<close> row), \<open>missing\<close> is set, and its old
  speed is kept.
\<close>

theorem compare_keeps_baseline_keys:
  assumes "distinct (map fst B)" and "distinct (map fst C)"
  shows "(\<forall>k \<in> fst ` set B. map_of (oldBenches (compare (Some B) C p sT rT)) k \<noteq> None) \<and>
         (\<forall>(k, v) \<in> set B. map_of C k = None \<longrightarrow>
            missing (compare (Some B) C p sT rT) \<and>
            map_of (oldBenches (compare (Some B) C p sT rT)) k = Some v \<and>
            MissingName k \<in> set (logged (compare (Some B) C p sT rT)) \<and>
            sublist (missingRow k v) (delta (compare (Some B) C p sT rT)))"
proof (intro conjI ballI)
  fix k assume "k \<in> fst ` set B"
  then have "map_of B k \<noteq> None" by (simp add: map_of_eq_None_iff)
  then show "map_of (oldBenches (compare (Some B) C p sT rT)) k \<noteq> None"
    by (simp add: compare_Some_best [OF assms(2)] split: option.split)
next
  fix x assume x: "x \<in> set B"
  obtain k v where kv: "x = (k, v)" by (cases x)
  have "missing (compare (Some B) C p sT rT) \<and>
        map_of (oldBenches (compare (Some B) C p sT rT)) k = Some v \<and>
        MissingName k \<in> set (logged (compare (Some B) C p sT rT)) \<and>
        sublist (missingRow k v) (delta (compare (Some B) C p sT rT))"
    if none: "map_of C k = None"
  proof -
    from x kv none have ab: "(k, v) \<in> set (absent B C)" by (simp add: absent_iff)
    then have m: "missing (compare (Some B) C p sT rT)"
      by (auto simp: compare_Some_missing)
    from x kv assms(1) have "map_of B k = Some v" by simp
    with none have b: "map_of (oldBenches (compare (Some B) C p sT rT)) k = Some v"
      by (simp add: compare_Some_best [OF assms(2)])
    from ab have "MissingName k \<in> set (map (\<lambda>(k, v). MissingName k) (absent B C))"
      by force
    then have l: "MissingName k \<in> set (logged (compare (Some B) C p sT rT))"
      by (simp add: compare_Some_logged [OF assms(2)])
    from ab have "sublist (missingRow k v) (concat (map (\<lambda>(k, v). missingRow k v) (absent B C)))"
      using sublist_concat_map [of "(k, v)" "absent B C" "\<lambda>(k, v). missingRow k v"] by simp
    then have d: "sublist (missingRow k v) (delta (compare (Some B) C p sT rT))"
      by (simp add: compare_Some_delta [OF assms(2)] sublist_appendI1 sublist_appendI2)
    from m b l d show ?thesis by simp
  qed
  then show "case x of (k, v) \<Rightarrow> map_of C k = None \<longrightarrow>
            missing (compare (Some B) C p sT rT) \<and>
            map_of (oldBenches (compare (Some B) C p sT rT)) k = Some v \<and>
            MissingName k \<in> set (logged (compare (Some B) C p sT rT)) \<and>
            sublist (missingRow k v) (delta (compare (Some B) C p sT rT))"
    by (simp add: kv)
qed

theorem compare_keeps_baseline_keys_witness:
  "distinct (map fst [(''A'', 500 :: uint64), (''B'', 10000)]) \<and>
   distinct (map fst [(''B'', 10000 :: uint64)]) \<and>
   (''A'', 500) \<in> set [(''A'', 500 :: uint64), (''B'', 10000)] \<and>
   map_of [(''B'', 10000 :: uint64)] ''A'' = None \<and>
   missing (compare (Some [(''A'', 500), (''B'', 10000)]) [(''B'', 10000)] ''pkg''
     (Finite (3 / 2)) (Finite (7 / 10))) \<and>
   map_of (oldBenches (compare (Some [(''A'', 500), (''B'', 10000)]) [(''B'', 10000)] ''pkg''
     (Finite (3 / 2)) (Finite (7 / 10)))) ''A'' = Some 500 \<and>
   map_of (oldBenches (compare (Some [(''A'', 500), (''B'', 10000)]) [(''B'', 10000)] ''pkg''
     (Finite (3 / 2)) (Finite (7 / 10)))) ''B'' \<noteq> None"
  using compare_keeps_baseline_keys [of "[(''A'', 500), (''B'', 10000)]" "[(''B'', 10000)]"
      "''pkg''" "Finite (3 / 2)" "Finite (7 / 10)"]
  by simp

text \<open>
  C8. Comparing a record with itself, under tolerances for which a factor of one is
  neither greater than \<open>speedTol\<close> nor less than \<open>recordTol\<close>: every benchmark gets its
  speed row and no log message (it is unchanged; a benchmark of speed zero has the factor
  NaN, which no comparison accepts), the best benchmarks are the record itself, and neither
  \<open>missing\<close> nor \<open>tooSlow\<close> is set. With \<open>speedTol\<close> below one the same comparison sets
  \<open>tooSlow\<close>.
\<close>

theorem compare_same_record:
  assumes "distinct (map fst B)"
    and "\<not> f64_gt (Finite 1) sT" and "\<not> f64_lt (Finite 1) rT"
  shows "delta (compare (Some B) B p sT rT) =
           header @ concat (map (\<lambda>(k, v). speedRow k v v (factor_of v v)) B) \<and>
         logged (compare (Some B) B p sT rT) = [BlankLine] \<and>
         oldBenches (compare (Some B) B p sT rT) = B \<and>
         \<not> missing (compare (Some B) B p sT rT) \<and>
         \<not> tooSlow (compare (Some B) B p sT rT)"
proof -
  let ?st = "\<lparr>delta = header, oldBenches = B, missing = False, tooSlow = False,
              logged = [BlankLine]\<rparr>"
  from assms(1) have "\<forall>(k, v) \<in> set B. map_of (oldBenches ?st) k = Some v" by auto
  then have "speedLoop B sT rT ?st =
      ?st\<lparr>delta := delta ?st @ concat (map (\<lambda>(k, v). speedRow k v v (factor_of v v)) B)\<rparr>"
    by (rule speedLoop_unchanged [OF assms(2,3)])
  then show ?thesis
    by (simp add: compare_def missingLoop_none [OF absent_self [OF assms(1)]])
qed

theorem compare_same_record_witness:
  "distinct (map fst [(''X'', 1000 :: uint64), (''Y'', 0)]) \<and>
   \<not> f64_gt (Finite 1) (Finite (3 / 2)) \<and> \<not> f64_lt (Finite 1) (Finite (7 / 10)) \<and>
   logged (compare (Some [(''X'', 1000), (''Y'', 0)]) [(''X'', 1000), (''Y'', 0)] ''pkg''
     (Finite (3 / 2)) (Finite (7 / 10))) = [BlankLine] \<and>
   oldBenches (compare (Some [(''X'', 1000), (''Y'', 0)]) [(''X'', 1000), (''Y'', 0)] ''pkg''
     (Finite (3 / 2)) (Finite (7 / 10))) = [(''X'', 1000), (''Y'', 0)] \<and>
   \<not> missing (compare (Some [(''X'', 1000), (''Y'', 0)]) [(''X'', 1000), (''Y'', 0)] ''pkg''
     (Finite (3 / 2)) (Finite (7 / 10))) \<and>
   \<not> tooSlow (compare (Some [(''X'', 1000), (''Y'', 0)]) [(''X'', 1000), (''Y'', 0)] ''pkg''
     (Finite (3 / 2)) (Finite (7 / 10)))"
  using compare_same_record [of "[(''X'', 1000), (''Y'', 0)]" "Finite (3 / 2)" "Finite (7 / 10)" "''pkg''"]
  by (simp add: f64_lt_def)

theorem compare_same_record_counterexample:
  "tooSlow (compare (Some [(''X'', 1)]) [(''X'', 1)] ''pkg'' (Finite (1 / 2)) (Finite (7 / 10)))"
  by (simp add: compare_Some_tooSlow stepSlow_def factor_of_same)




section \<open>Claims about tabAlign\<close>

text \<open>
  C5. \<open>tabAlign\<close> never panics. Its result has one line for every row of the input, in
  the order of the input: for a row with exactly four columns, the first three columns
  each followed by as many spaces as the greatest width of that column among the rows
  with four columns, minus the width of the field, plus four, then the fourth column;
  for any other row the empty line. Rows without four columns do not count for the
  widths. The line of such a row is kept, empty: it is not removed from the result.
\<close>

theorem tabAlign_rows:
  "tabAlign table =
     Some (join [nl]
       (map (\<lambda>row. if wellFormed row then renderRow (split nl table) row else [])
          (split nl table)))"
  by (rule tabAlign_render)

theorem tabAlign_blank_line_counterexample:
  "tabAlign (''a'' @ tab # ''bb'' @ tab # ''c'' @ tab # ''d'' @ nl # ''x'' @ tab # ''y'' @ tab # ''z''
      @ nl # ''eee'' @ tab # ''f'' @ tab # ''g'' @ tab # ''h'') =
   Some (''a      bb    c    d'' @ nl # nl # ''eee    f     g    h'') \<and>
   tabAlign (''a'' @ tab # ''bb'' @ tab # ''c'' @ tab # ''d'' @ nl # ''x'' @ tab # ''y'' @ tab # ''z''
      @ nl # ''eee'' @ tab # ''f'' @ tab # ''g'' @ tab # ''h'') \<noteq>
   Some (''a      bb    c    d'' @ nl # ''eee    f     g    h'')"
  by (simp add: tabAlign_render wellFormed_def renderRow_def colWidth_def padField_def
      eval_nat_numeral)

section \<open>Claims about findGosrc\<close>

text \<open>
  C6. \<open>findGosrc\<close> returns the empty string exactly when the package path occurs nowhere
  in the working directory or its last occurrence starts at index \<open>0\<close> or \<open>1\<close>; when the
  last occurrence starts at an index \<open>i\<close> of at least \<open>2\<close>, the result is the first \<open>i - 1\<close>
  characters of the working directory. The occurrence need not be at the end of the
  working directory: \<open>pkg\<close> in \<open>/go/src/pkg/cmd\<close> gives \<open>/go/src\<close>.
\<close>

theorem findGosrc_last_occurrence:
  "(findGosrc pwd pkgName = [] \<longleftrightarrow>
      (\<forall>i. \<not> occursAt pkgName pwd i) \<or>
      (\<exists>i \<le> 1. occursAt pkgName pwd i \<and> (\<forall>j. occursAt pkgName pwd j \<longrightarrow> j \<le> i))) \<and>
   (\<forall>i. 2 \<le> i \<and> occursAt pkgName pwd i \<and> (\<forall>j. occursAt pkgName pwd j \<longrightarrow> j \<le> i) \<longrightarrow>
      findGosrc pwd pkgName = take (i - 1) pwd)"
proof -
  consider (none) "lastIndex pwd pkgName = - 1" and "\<forall>i. \<not> occursAt pkgName pwd i"
    | (some) i where "lastIndex pwd pkgName = int i" and "occursAt pkgName pwd i"
        and "\<forall>j. occursAt pkgName pwd j \<longrightarrow> j \<le> i"
    using lastIndex_cases [of pwd pkgName] by blast
  then show ?thesis
  proof cases
    case none
    then show ?thesis by (simp add: findGosrc_def convertPath_def)
  next
    case some
    have uniq: "i' = i" if "occursAt pkgName pwd i'" and "\<forall>j. occursAt pkgName pwd j \<longrightarrow> j \<le> i'" for i'
      using that some(2,3) by (simp add: le_antisym)
    show ?thesis
    proof (cases "i \<le> 1")
      case True
      with some have "findGosrc pwd pkgName = []" by (simp add: findGosrc_def convertPath_def)
      moreover from True some have "\<exists>i \<le> 1. occursAt pkgName pwd i \<and> (\<forall>j. occursAt pkgName pwd j \<longrightarrow> j \<le> i)"
        by blast
      moreover have "findGosrc pwd pkgName = take (i' - 1) pwd"
        if "2 \<le> i'" and "occursAt pkgName pwd i'" and "\<forall>j. occursAt pkgName pwd j \<longrightarrow> j \<le> i'" for i'
        using uniq [OF that(2,3)] that(1) True by simp
      ultimately show ?thesis by blast
    next
      case False
      then have i2: "2 \<le> i" by simp
      from some(2) have "i \<le> length pwd" by (simp add: occursAt_def)
      with i2 have "take (i - 1) pwd \<noteq> []" by auto
      moreover from False some(1) have res: "findGosrc pwd pkgName = take (i - 1) pwd"
        by (simp add: findGosrc_def convertPath_def nat_diff_distrib')
      moreover have "\<not> (\<exists>i' \<le> 1. occursAt pkgName pwd i' \<and> (\<forall>j. occursAt pkgName pwd j \<longrightarrow> j \<le> i'))"
        using uniq False by blast
      moreover have "findGosrc pwd pkgName = take (i' - 1) pwd"
        if "occursAt pkgName pwd i'" and "\<forall>j. occursAt pkgName pwd j \<longrightarrow> j \<le> i'" for i'
        using uniq [OF that] res by simp
      ultimately show ?thesis using some(2) by auto
    qed
  qed
qed


theorem findGosrc_last_occurrence_witness:
  "(2::nat) \<le> 8 \<and> occursAt ''pkg'' ''/go/src/pkg'' 8 \<and>
   \<not> (\<exists>j. occursAt ''pkg'' ''/go/src/pkg'' j \<and> 8 < j) \<and>
   findGosrc ''/go/src/pkg'' ''pkg'' = ''/go/src''"
proof -
  have occ: "occursAt ''pkg'' ''/go/src/pkg'' 8" by (simp add: occursAt_def)
  have mx: "\<forall>j. occursAt ''pkg'' ''/go/src/pkg'' j \<longrightarrow> j \<le> 8"
  proof (intro allI impI)
    fix j assume "occursAt ''pkg'' ''/go/src/pkg'' j"
    then have "j + length ''pkg'' \<le> length ''/go/src/pkg''"
      unfolding occursAt_def by (intro prefix_drop_length) simp_all
    then show "j \<le> 8" by simp
  qed
  have hyp: "(2::nat) \<le> 8 \<and> occursAt ''pkg'' ''/go/src/pkg'' 8 \<and>
      (\<forall>j. occursAt ''pkg'' ''/go/src/pkg'' j \<longrightarrow> j \<le> 8)"
    using occ mx by simp
  have "findGosrc ''/go/src/pkg'' ''pkg'' = take (8 - 1) ''/go/src/pkg''"
    by (rule findGosrc_last_occurrence [of "''/go/src/pkg''" "''pkg''", THEN conjunct2, THEN spec,
          of 8, THEN mp]) (rule hyp)
  moreover from mx have "\<not> (\<exists>j. occursAt ''pkg'' ''/go/src/pkg'' j \<and> 8 < j)"
    by (simp add: not_less)
  ultimately show ?thesis using occ by simp
qed

theorem findGosrc_not_trailing_counterexample:
  "\<not> suffix ''pkg'' ''/go/src/pkg/cmd'' \<and> findGosrc ''/go/src/pkg/cmd'' ''pkg'' = ''/go/src''"
  by (simp add: findGosrc_def convertPath_def lastIndex_def eval_nat_numeral suffix_to_prefix)

section \<open>Claims about the parser\<close>

text \<open>
  C7. If the output of \<open>go test\<close> has a line that the loop takes for a benchmark
  measurement and whose third column, without the trailing characters of \<open>" ns/op"\<close>,
  is not accepted by \<open>ParseUint\<close>, then \<open>runAndStoreBenches\<close> returns the conversion error
  and no record, and \<open>rebench\<close> returns \<open>-1\<close> with the files as they were, whatever the
  rest of the function would have done.
\<close>

theorem parse_failure_aborts:
  assumes "line \<in> set (split nl out)" and "measurementLine line"
    and "ParseUint (timingField line) = None"
  shows "runAndStoreBenches (Some out) = Inl ConvertProblem \<and>
         rebench rest (Some out) speedTolPercent recordTolPercent fs = (- 1, fs)"
proof -
  have "runAndStoreBenches (Some out) = Inl ConvertProblem"
    using parseLines_bad_line [OF assms(2,3,1)] by (simp add: runAndStoreBenches_def)
  then show ?thesis by (simp add: rebench_def)
qed

theorem parse_failure_aborts_witness:
  "''BenchmarkSleep'' @ tab # ''1'' @ tab # ''12x ns/op''
     \<in> set (split nl (''BenchmarkSleep'' @ tab # ''1'' @ tab # ''12x ns/op'' @ nl # ''ok'' @ tab # ''pkg'' @ tab # ''1s'')) \<and>
   measurementLine (''BenchmarkSleep'' @ tab # ''1'' @ tab # ''12x ns/op'') \<and>
   ParseUint (timingField (''BenchmarkSleep'' @ tab # ''1'' @ tab # ''12x ns/op'')) = None \<and>
   runAndStoreBenches (Some (''BenchmarkSleep'' @ tab # ''1'' @ tab # ''12x ns/op'' @ nl # ''ok'' @ tab # ''pkg'' @ tab # ''1s''))
     = Inl ConvertProblem \<and>
   rebench (\<lambda>s r rcd fs. (1, True)) (Some (''BenchmarkSleep'' @ tab # ''1'' @ tab # ''12x ns/op'' @ nl # ''ok'' @ tab # ''pkg'' @ tab # ''1s''))
     150 70 False = (- 1, False)"
proof -
  have 1: "''BenchmarkSleep'' @ tab # ''1'' @ tab # ''12x ns/op''
     \<in> set (split nl (''BenchmarkSleep'' @ tab # ''1'' @ tab # ''12x ns/op'' @ nl # ''ok'' @ tab # ''pkg'' @ tab # ''1s''))"
    by simp
  have 2: "measurementLine (''BenchmarkSleep'' @ tab # ''1'' @ tab # ''12x ns/op'')"
    by (simp add: parse_eval)
  have 3: "ParseUint (timingField (''BenchmarkSleep'' @ tab # ''1'' @ tab # ''12x ns/op'')) = None"
    by (simp add: parse_eval)
  from parse_failure_aborts [OF 1 2 3, of "\<lambda>s r rcd fs. (1, True)" 150 70 False] 1 2 3
  show ?thesis by (simp only: simp_thms)
qed

text \<open>
  C10. Lines after the last line that ends a package (first column \<open>ok\<close>), if every
  measurement among them has a timing that \<open>ParseUint\<close> accepts, change nothing: the
  result is that of the output without them, error or record alike. An output without
  any such line and without a timing that fails to parse gives the empty record. The
  condition on the timings is needed: the loop converts the timing of every measurement
  line, whether or not a line with \<open>ok\<close> follows, so a last measurement with the timing
  \<open>12x ns/op\<close> turns a record into the conversion error.
\<close>

theorem trailing_measurements_dropped:
  assumes "\<forall>line \<in> set (split nl tail). \<not> flushLine line \<and>
      (measurementLine line \<longrightarrow> ParseUint (timingField line) \<noteq> None)"
  shows "runAndStoreBenches (Some (pre @ nl # tail)) = runAndStoreBenches (Some pre) \<and>
         runAndStoreBenches (Some tail) = Inr []"
  by (simp add: runAndStoreBenches_def split_append_sep parseLines_append_tail [OF assms]
      parseLines_tail [OF assms])

theorem trailing_measurements_dropped_witness:
  "split nl (''BenchmarkB'' @ tab # ''1'' @ tab # ''7 ns/op'') = [''BenchmarkB'' @ tab # ''1'' @ tab # ''7 ns/op''] \<and>
   \<not> flushLine (''BenchmarkB'' @ tab # ''1'' @ tab # ''7 ns/op'') \<and>
   measurementLine (''BenchmarkB'' @ tab # ''1'' @ tab # ''7 ns/op'') \<and>
   ParseUint (timingField (''BenchmarkB'' @ tab # ''1'' @ tab # ''7 ns/op'')) = Some 7 \<and>
   runAndStoreBenches (Some ((''BenchmarkA'' @ tab # ''1'' @ tab # ''5 ns/op'' @ nl # ''ok'' @ tab # ''pkg'' @ tab # ''1s'')
       @ nl # ''BenchmarkB'' @ tab # ''1'' @ tab # ''7 ns/op'')) =
     runAndStoreBenches (Some (''BenchmarkA'' @ tab # ''1'' @ tab # ''5 ns/op'' @ nl # ''ok'' @ tab # ''pkg'' @ tab # ''1s'')) \<and>
   runAndStoreBenches (Some (''BenchmarkB'' @ tab # ''1'' @ tab # ''7 ns/op'')) = Inr []"
proof -
  have s: "split nl (''BenchmarkB'' @ tab # ''1'' @ tab # ''7 ns/op'') = [''BenchmarkB'' @ tab # ''1'' @ tab # ''7 ns/op'']"
    by simp
  have f: "\<not> flushLine (''BenchmarkB'' @ tab # ''1'' @ tab # ''7 ns/op'')"
    by (simp add: parse_eval)
  have m: "measurementLine (''BenchmarkB'' @ tab # ''1'' @ tab # ''7 ns/op'')"
    by (simp add: parse_eval)
  have p: "ParseUint (timingField (''BenchmarkB'' @ tab # ''1'' @ tab # ''7 ns/op'')) = Some 7"
    by (simp add: parse_eval)
  have h: "\<forall>line \<in> set (split nl (''BenchmarkB'' @ tab # ''1'' @ tab # ''7 ns/op'')). \<not> flushLine line \<and>
      (measurementLine line \<longrightarrow> ParseUint (timingField line) \<noteq> None)"
    using f p by (simp only: s) simp
  from trailing_measurements_dropped [OF h, of "''BenchmarkA'' @ tab # ''1'' @ tab # ''5 ns/op'' @ nl # ''ok'' @ tab # ''pkg'' @ tab # ''1s''"] s f m p
  show ?thesis by (simp only: simp_thms)
qed

theorem trailing_bad_measurement_counterexample:
  "split nl (''BenchmarkB'' @ tab # ''1'' @ tab # ''12x ns/op'') = [''BenchmarkB'' @ tab # ''1'' @ tab # ''12x ns/op''] \<and>
   \<not> flushLine (''BenchmarkB'' @ tab # ''1'' @ tab # ''12x ns/op'') \<and>
   measurementLine (''BenchmarkB'' @ tab # ''1'' @ tab # ''12x ns/op'') \<and>
   runAndStoreBenches (Some (''BenchmarkA'' @ tab # ''1'' @ tab # ''5 ns/op'' @ nl # ''ok'' @ tab # ''pkg'' @ tab # ''1s'')) = Inr [(''pkg'', [(''BenchmarkA'', 5)])] \<and>
   runAndStoreBenches (Some ((''BenchmarkA'' @ tab # ''1'' @ tab # ''5 ns/op'' @ nl # ''ok'' @ tab # ''pkg'' @ tab # ''1s'')
       @ nl # ''BenchmarkB'' @ tab # ''1'' @ tab # ''12x ns/op'')) = Inl ConvertProblem"
proof -
  have s: "split nl (''BenchmarkB'' @ tab # ''1'' @ tab # ''12x ns/op'') = [''BenchmarkB'' @ tab # ''1'' @ tab # ''12x ns/op'']"
    by simp
  have f: "\<not> flushLine (''BenchmarkB'' @ tab # ''1'' @ tab # ''12x ns/op'')"
    by (simp add: parse_eval)
  have m: "measurementLine (''BenchmarkB'' @ tab # ''1'' @ tab # ''12x ns/op'')"
    by (simp add: parse_eval)
  have p: "ParseUint (timingField (''BenchmarkB'' @ tab # ''1'' @ tab # ''12x ns/op'')) = None"
    by (simp add: parse_eval)
  have mem: "''BenchmarkB'' @ tab # ''1'' @ tab # ''12x ns/op'' \<in> set (split nl ((''BenchmarkA'' @ tab # ''1'' @ tab # ''5 ns/op'' @ nl # ''ok'' @ tab # ''pkg'' @ tab # ''1s'')
       @ nl # ''BenchmarkB'' @ tab # ''1'' @ tab # ''12x ns/op''))"
    by (simp only: split_append_sep s) simp
  have e: "runAndStoreBenches (Some ((''BenchmarkA'' @ tab # ''1'' @ tab # ''5 ns/op'' @ nl # ''ok'' @ tab # ''pkg'' @ tab # ''1s'')
       @ nl # ''BenchmarkB'' @ tab # ''1'' @ tab # ''12x ns/op'')) = Inl ConvertProblem"
    using parseLines_bad_line [OF m p mem] by (simp add: runAndStoreBenches_def)
  from s f m parse_example e show ?thesis by (intro conjI)
qed

section \<open>Claims about the effect of compare on its arguments\<close>

text \<open>
  C4. A call of \<open>compare\<close> changes no map but the one it returns as best benchmarks: with
  a previous record that is the map passed as \<open>oldBenches\<close>, updated in place (the contents
  of the caller's map after the call are the returned best benchmarks); without one it is
  a newly allocated map. The current record is never changed. Two calls on maps with
  the same entries, whatever the order in which the maps are visited, give the same
  flags, best benchmarks with the same entries, and the same rows of \<open>delta\<close> after the
  header, up to their order: \<open>delta\<close> is the header followed by the rows of the two
  loops, and the two calls have the same rows as multisets.
\<close>

theorem compare_in_place_order_independent:
  assumes "distinct (map fst (readMap h oldRef))" and "distinct (map fst (readMap h benchesRef))"
    and "mset (readMap g oldRef) = mset (readMap h oldRef)"
    and "mset (readMap g benchesRef) = mset (readMap h benchesRef)"
    and "compareRef h oldRef benchesRef p sT rT = (r, a, h')"
    and "compareRef g oldRef benchesRef p sT rT = (r', a', g')"
  shows "(\<forall>c. c \<noteq> a \<longrightarrow> maps h' c = maps h c) \<and>
         (\<forall>b. benchesRef = Some b \<longrightarrow> maps h' b = maps h b) \<and>
         maps h' a = oldBenches r \<and>
         (case oldRef of Some a0 \<Rightarrow> a = a0 \<and> free h' = free h
          | None \<Rightarrow> a = free h \<and> free h' = Suc (free h)) \<and>
         missing r' = missing r \<and> tooSlow r' = tooSlow r \<and>
         map_of (oldBenches r') = map_of (oldBenches r) \<and>
         delta r = header @ concat (deltaRows (readRef h oldRef) (readMap h benchesRef)) \<and>
         delta r' = header @ concat (deltaRows (readRef g oldRef) (readMap g benchesRef)) \<and>
         mset (deltaRows (readRef g oldRef) (readMap g benchesRef)) =
           mset (deltaRows (readRef h oldRef) (readMap h benchesRef))"
proof -
  note frame = compareRef_frame [OF assms(2,5)]
  have same: "missing r' = missing r \<and> tooSlow r' = tooSlow r \<and>
         map_of (oldBenches r') = map_of (oldBenches r) \<and>
         delta r = header @ concat (deltaRows (readRef h oldRef) (readMap h benchesRef)) \<and>
         delta r' = header @ concat (deltaRows (readRef g oldRef) (readMap g benchesRef)) \<and>
         mset (deltaRows (readRef g oldRef) (readMap g benchesRef)) =
           mset (deltaRows (readRef h oldRef) (readMap h benchesRef))"
  proof (cases oldRef)
    case None
    with assms(5) have r: "r = compare None (readMap h benchesRef) p sT rT"
      by (auto simp: compareRef_def Let_def)
    from None assms(6) have r': "r' = compare None (readMap g benchesRef) p sT rT"
      by (auto simp: compareRef_def Let_def)
    from None have rr: "readRef h oldRef = None" "readRef g oldRef = None"
      by (simp_all add: readRef_def)
    show ?thesis unfolding r r' rr
      by (intro conjI compare_None_perm [OF assms(2,4)])
  next
    case (Some a0)
    with assms(5) have r: "r = compare (Some (readMap h oldRef)) (readMap h benchesRef) p sT rT"
      by (auto simp: compareRef_def Let_def readMap_def)
    from Some assms(6) have r': "r' = compare (Some (readMap g oldRef)) (readMap g benchesRef) p sT rT"
      by (auto simp: compareRef_def Let_def readMap_def)
    from Some have rr: "readRef h oldRef = Some (readMap h oldRef)"
        "readRef g oldRef = Some (readMap g oldRef)"
      by (simp_all add: readRef_def readMap_def)
    show ?thesis unfolding r r' rr
      by (intro conjI compare_Some_perm [OF assms(1,2,3,4)])
  qed
  from frame same show ?thesis by (intro conjI) (elim conjE, assumption)+
qed

theorem compare_mutates_baseline_counterexample:
  "maps \<lparr>maps = (\<lambda>a. [])(0 := [(''X'', 1000)], 1 := [(''X'', 500)]), free = 2\<rparr> 0 = [(''X'', 1000)] \<and>
   maps (snd (snd (compareRef \<lparr>maps = (\<lambda>a. [])(0 := [(''X'', 1000)], 1 := [(''X'', 500)]), free = 2\<rparr>
     (Some 0) (Some 1) ''pkg'' (Finite (3 / 2)) (Finite (7 / 10))))) 0 = [(''X'', 500)]"
  by (simp add: compareRef_def readMap_def compare_def speedStep_def factor_of_500_1000 f64_lt_def
      Let_def)


theorem compare_in_place_order_independent_witness:
  "distinct (map fst (readMap \<lparr>maps = (\<lambda>a. [])(0 := [(''X'', 1000), (''Y'', 10000)], 1 := [(''X'', 500), (''Y'', 10000)]), free = 2\<rparr> (Some 0))) \<and>
   distinct (map fst (readMap \<lparr>maps = (\<lambda>a. [])(0 := [(''X'', 1000), (''Y'', 10000)], 1 := [(''X'', 500), (''Y'', 10000)]), free = 2\<rparr> (Some 1))) \<and>
   mset (readMap \<lparr>maps = (\<lambda>a. [])(0 := [(''Y'', 10000), (''X'', 1000)], 1 := [(''Y'', 10000), (''X'', 500)]), free = 2\<rparr> (Some 0)) = mset (readMap \<lparr>maps = (\<lambda>a. [])(0 := [(''X'', 1000), (''Y'', 10000)], 1 := [(''X'', 500), (''Y'', 10000)]), free = 2\<rparr> (Some 0)) \<and>
   mset (readMap \<lparr>maps = (\<lambda>a. [])(0 := [(''Y'', 10000), (''X'', 1000)], 1 := [(''Y'', 10000), (''X'', 500)]), free = 2\<rparr> (Some 1)) = mset (readMap \<lparr>maps = (\<lambda>a. [])(0 := [(''X'', 1000), (''Y'', 10000)], 1 := [(''X'', 500), (''Y'', 10000)]), free = 2\<rparr> (Some 1)) \<and>
   maps (snd (snd (compareRef \<lparr>maps = (\<lambda>a. [])(0 := [(''X'', 1000), (''Y'', 10000)], 1 := [(''X'', 500), (''Y'', 10000)]), free = 2\<rparr> (Some 0) (Some 1) ''pkg'' (Finite (3 / 2)) (Finite (7 / 10))))) 1 = maps \<lparr>maps = (\<lambda>a. [])(0 := [(''X'', 1000), (''Y'', 10000)], 1 := [(''X'', 500), (''Y'', 10000)]), free = 2\<rparr> 1 \<and>
   maps (snd (snd (compareRef \<lparr>maps = (\<lambda>a. [])(0 := [(''X'', 1000), (''Y'', 10000)], 1 := [(''X'', 500), (''Y'', 10000)]), free = 2\<rparr> (Some 0) (Some 1) ''pkg'' (Finite (3 / 2)) (Finite (7 / 10))))) (fst (snd (compareRef \<lparr>maps = (\<lambda>a. [])(0 := [(''X'', 1000), (''Y'', 10000)], 1 := [(''X'', 500), (''Y'', 10000)]), free = 2\<rparr> (Some 0) (Some 1) ''pkg'' (Finite (3 / 2)) (Finite (7 / 10))))) = oldBenches (fst (compareRef \<lparr>maps = (\<lambda>a. [])(0 := [(''X'', 1000), (''Y'', 10000)], 1 := [(''X'', 500), (''Y'', 10000)]), free = 2\<rparr> (Some 0) (Some 1) ''pkg'' (Finite (3 / 2)) (Finite (7 / 10)))) \<and>
   tooSlow (fst (compareRef \<lparr>maps = (\<lambda>a. [])(0 := [(''Y'', 10000), (''X'', 1000)], 1 := [(''Y'', 10000), (''X'', 500)]), free = 2\<rparr> (Some 0) (Some 1) ''pkg'' (Finite (3 / 2)) (Finite (7 / 10)))) = tooSlow (fst (compareRef \<lparr>maps = (\<lambda>a. [])(0 := [(''X'', 1000), (''Y'', 10000)], 1 := [(''X'', 500), (''Y'', 10000)]), free = 2\<rparr> (Some 0) (Some 1) ''pkg'' (Finite (3 / 2)) (Finite (7 / 10)))) \<and>
   map_of (oldBenches (fst (compareRef \<lparr>maps = (\<lambda>a. [])(0 := [(''Y'', 10000), (''X'', 1000)], 1 := [(''Y'', 10000), (''X'', 500)]), free = 2\<rparr> (Some 0) (Some 1) ''pkg'' (Finite (3 / 2)) (Finite (7 / 10))))) = map_of (oldBenches (fst (compareRef \<lparr>maps = (\<lambda>a. [])(0 := [(''X'', 1000), (''Y'', 10000)], 1 := [(''X'', 500), (''Y'', 10000)]), free = 2\<rparr> (Some 0) (Some 1) ''pkg'' (Finite (3 / 2)) (Finite (7 / 10))))) \<and>
   mset (deltaRows (readRef \<lparr>maps = (\<lambda>a. [])(0 := [(''Y'', 10000), (''X'', 1000)], 1 := [(''Y'', 10000), (''X'', 500)]), free = 2\<rparr> (Some 0)) (readMap \<lparr>maps = (\<lambda>a. [])(0 := [(''Y'', 10000), (''X'', 1000)], 1 := [(''Y'', 10000), (''X'', 500)]), free = 2\<rparr> (Some 1))) = mset (deltaRows (readRef \<lparr>maps = (\<lambda>a. [])(0 := [(''X'', 1000), (''Y'', 10000)], 1 := [(''X'', 500), (''Y'', 10000)]), free = 2\<rparr> (Some 0)) (readMap \<lparr>maps = (\<lambda>a. [])(0 := [(''X'', 1000), (''Y'', 10000)], 1 := [(''X'', 500), (''Y'', 10000)]), free = 2\<rparr> (Some 1)))"
proof -
  let ?h = "\<lparr>maps = (\<lambda>a. [])(0 := [(''X'', 1000), (''Y'', 10000)], 1 := [(''X'', 500), (''Y'', 10000)]), free = 2\<rparr>"
  let ?g = "\<lparr>maps = (\<lambda>a. [])(0 := [(''Y'', 10000), (''X'', 1000)], 1 := [(''Y'', 10000), (''X'', 500)]), free = 2\<rparr>"
  let ?rh = "compareRef ?h (Some 0) (Some 1) ''pkg'' (Finite (3 / 2)) (Finite (7 / 10))"
  let ?rg = "compareRef ?g (Some 0) (Some 1) ''pkg'' (Finite (3 / 2)) (Finite (7 / 10))"
  have d1: "distinct (map fst (readMap ?h (Some 0)))" by (simp add: readMap_def)
  have d2: "distinct (map fst (readMap ?h (Some 1)))" by (simp add: readMap_def)
  have m1: "mset (readMap ?g (Some 0)) = mset (readMap ?h (Some 0))" by (simp add: readMap_def)
  have m2: "mset (readMap ?g (Some 1)) = mset (readMap ?h (Some 1))" by (simp add: readMap_def)
  have e1: "?rh = (fst ?rh, fst (snd ?rh), snd (snd ?rh))" by (simp only: prod.collapse)
  have e2: "?rg = (fst ?rg, fst (snd ?rg), snd (snd ?rg))" by (simp only: prod.collapse)
  note T = compare_in_place_order_independent [OF d1 d2 m1 m2 e1 e2]
  from T have t1: "\<forall>b. Some (1::nat) = Some b \<longrightarrow> maps (snd (snd ?rh)) b = maps ?h b" by (elim conjE)
  then have c1: "maps (snd (snd ?rh)) 1 = maps ?h 1" by (elim allE [of _ 1] impE) (rule refl)
  from T have c2: "maps (snd (snd ?rh)) (fst (snd ?rh)) = oldBenches (fst ?rh)" by (elim conjE)
  from T have c3: "tooSlow (fst ?rg) = tooSlow (fst ?rh)" by (elim conjE)
  from T have c4: "map_of (oldBenches (fst ?rg)) = map_of (oldBenches (fst ?rh))" by (elim conjE)
  from T have c5: "mset (deltaRows (readRef ?g (Some 0)) (readMap ?g (Some 1))) =
      mset (deltaRows (readRef ?h (Some 0)) (readMap ?h (Some 1)))" by (elim conjE)
  from d1 d2 m1 m2 c1 c2 c3 c4 c5 show ?thesis by (intro conjI)
qed


end
